theory Spec2Isabelle
  imports Main
begin

chapter \<open>A pull-request review notifier: mentions, code owners, identities, thread state\<close>

text \<open>
  The development embeds the JavaScript sources of the notifier: \<^verbatim>\<open>src/github.js\<close>
  (mention extraction, thread pointer, CODEOWNERS parsing and matching),
  \<^verbatim>\<open>src/mapper.js\<close> (GitHub handle to Slack id) and the entry file with
  \<^verbatim>\<open>handlePROpened\<close> and \<^verbatim>\<open>handleComment\<close>.

  Conventions of the embedding:
  \<^item> a JavaScript string is the list of its UTF-16 code units (\<open>js_string\<close>), each
    code unit a number; \<^verbatim>\<open>===\<close>, \<^verbatim>\<open>startsWith\<close>, a regular expression without the
    \<^verbatim>\<open>u\<close> flag and the other string operations of the sources all work on code units.
    A string literal of the sources is written \<open>str ''...''\<close>;
  \<^item> \<^verbatim>\<open>null\<close> and \<^verbatim>\<open>undefined\<close> are \<^term>\<open>None\<close>; a truthiness test on a string
    is "present and non-empty";
  \<^item> a thrown exception is \<^term>\<open>Inl\<close> of a \<open>js_error\<close>;
  \<^item> every request to GitHub or Slack is answered by a field of the record \<open>env\<close>
    (the same request gets the same answer during one run) and is logged in a list of
    \<open>call\<close>s that the function returns next to its value, so that "nothing was sent"
    is a statement about that list;
  \<^item> a JavaScript \<^verbatim>\<open>Set\<close> is the list of its elements in insertion order.
\<close>

section \<open>JavaScript strings, arrays and sets\<close>

type_synonym code_unit = nat

type_synonym js_string = "code_unit list"

text \<open>The code unit of an ASCII character and the string of an ASCII literal.\<close>

abbreviation unit_of :: "char \<Rightarrow> code_unit" where
  "unit_of c \<equiv> of_char c"

abbreviation str :: "string \<Rightarrow> js_string" where
  "str s \<equiv> map of_char s"

text \<open>\<^verbatim>\<open>s.startsWith(p)\<close>, \<^verbatim>\<open>s.endsWith(p)\<close>, \<^verbatim>\<open>s.includes(p)\<close>.\<close>

fun startsWith :: "js_string \<Rightarrow> js_string \<Rightarrow> bool" where
  "startsWith s [] = True"
| "startsWith [] (p # ps) = False"
| "startsWith (c # cs) (p # ps) = (c = p \<and> startsWith cs ps)"

definition endsWith :: "js_string \<Rightarrow> js_string \<Rightarrow> bool" where
  "endsWith s p = startsWith (rev s) (rev p)"

fun includes_str :: "js_string \<Rightarrow> js_string \<Rightarrow> bool" where
  "includes_str [] p = (p = [])"
| "includes_str (c # cs) p = (startsWith (c # cs) p \<or> includes_str cs p)"

text \<open>
  White space as \<^verbatim>\<open>trim()\<close> and the class \<^verbatim>\<open>\s\<close> of a regular expression take
  it (the \<^verbatim>\<open>WhiteSpace\<close> and \<^verbatim>\<open>LineTerminator\<close> code points of ECMAScript):
  U+0009 to U+000D, U+0020, U+00A0, U+1680, U+2000 to U+200A, U+2028, U+2029, U+202F,
  U+205F, U+3000 and U+FEFF. The line terminators, which \<^verbatim>\<open>.\<close> does not match:
  U+000A, U+000D, U+2028 and U+2029.
\<close>

definition is_space :: "code_unit \<Rightarrow> bool" where
  "is_space c =
     ((0x09 \<le> c \<and> c \<le> 0x0D) \<or> c = 0x20 \<or> c = 0xA0 \<or> c = 0x1680 \<or>
      (0x2000 \<le> c \<and> c \<le> 0x200A) \<or> c = 0x2028 \<or> c = 0x2029 \<or> c = 0x202F \<or>
      c = 0x205F \<or> c = 0x3000 \<or> c = 0xFEFF)"

definition is_line_terminator :: "code_unit \<Rightarrow> bool" where
  "is_line_terminator c = (c = 0x0A \<or> c = 0x0D \<or> c = 0x2028 \<or> c = 0x2029)"

definition trim :: "js_string \<Rightarrow> js_string" where
  "trim s = rev (dropWhile is_space (rev (dropWhile is_space s)))"

text \<open>
  \<^verbatim>\<open>s.split('\n')\<close>: the pieces between the separators; the empty string gives one
  empty piece, a trailing separator a trailing empty piece.
\<close>

fun split_char :: "code_unit \<Rightarrow> js_string \<Rightarrow> js_string list" where
  "split_char sep [] = [[]]"
| "split_char sep (c # cs) =
     (if c = sep then [] # split_char sep cs
      else (case split_char sep cs of
              t # ts \<Rightarrow> (c # t) # ts
            | [] \<Rightarrow> [[c]]))"

text \<open>
  \<^verbatim>\<open>s.split(/\s+/)\<close>: a separator is a maximal run of white space, so a white-space
  character followed by another one is still inside the separator.
\<close>

fun split_ws :: "js_string \<Rightarrow> js_string list" where
  "split_ws [] = [[]]"
| "split_ws (c # cs) =
     (if is_space c then
        (if cs \<noteq> [] \<and> is_space (hd cs) then split_ws cs else [] # split_ws cs)
      else (case split_ws cs of
              t # ts \<Rightarrow> (c # t) # ts
            | [] \<Rightarrow> [[c]]))"

text \<open>\<^verbatim>\<open>xs.join(sep)\<close>.\<close>

fun join :: "js_string \<Rightarrow> js_string list \<Rightarrow> js_string" where
  "join sep [] = []"
| "join sep [x] = x"
| "join sep (x # y # ys) = x @ sep @ join sep (y # ys)"

text \<open>
  \<^verbatim>\<open>set.add(x)\<close> keeps the insertion order and ignores an element that is already
  there; \<^verbatim>\<open>new Set(xs)\<close> adds the elements of \<open>xs\<close> from left to right, and
  \<^verbatim>\<open>Array.from(set)\<close>, \<^verbatim>\<open>[...set]\<close> read the elements back in that order.
\<close>

definition Set_add :: "'a list \<Rightarrow> 'a \<Rightarrow> 'a list" where
  "Set_add s x = (if x \<in> set s then s else s @ [x])"

definition new_Set :: "'a list \<Rightarrow> 'a list" where
  "new_Set xs = foldl Set_add [] xs"

text \<open>\<^verbatim>\<open>if (x)\<close> on a value that is a string or \<^verbatim>\<open>null\<close>.\<close>

fun truthy :: "js_string option \<Rightarrow> bool" where
  "truthy None = False"
| "truthy (Some s) = (s \<noteq> [])"

datatype js_error = Error js_string | TypeError js_string

section \<open>Mention extraction (\<^verbatim>\<open>extractMentions\<close>)\<close>

text \<open>
  \<^verbatim>\<open>
  function extractMentions(text) {
    if (!text) return [];
    const mentionPattern = /@([a-zA-Z0-9](?:[a-zA-Z0-9-]*[a-zA-Z0-9])?)/g;
    const matches = text.matchAll(mentionPattern);
    const mentions = [...matches].map(match => match[1]);
    return [...new Set(mentions)];
  }
  \<close>
\<close>

definition is_alnum :: "code_unit \<Rightarrow> bool" where
  "is_alnum c =
     ((0x61 \<le> c \<and> c \<le> 0x7A) \<or> (0x41 \<le> c \<and> c \<le> 0x5A) \<or> (0x30 \<le> c \<and> c \<le> 0x39))"

definition is_handle_char :: "code_unit \<Rightarrow> bool" where
  "is_handle_char c = (is_alnum c \<or> c = unit_of CHR ''-'')"

text \<open>
  The group \<^verbatim>\<open>[a-zA-Z0-9-]*[a-zA-Z0-9]\<close> on the text \<open>cs\<close>, as the backtracking
  matcher runs it: the star first takes the next character and goes on (greedy); only
  when no match follows does it stop in front of that character, which must then be the
  closing alphanumeric. The result is the number of characters matched.
\<close>

fun greedy_tail :: "js_string \<Rightarrow> nat option" where
  "greedy_tail [] = None"
| "greedy_tail (c # cs) =
     (if is_handle_char c then
        (case greedy_tail cs of
           Some n \<Rightarrow> Some (Suc n)
         | None \<Rightarrow> if is_alnum c then Some 1 else None)
      else None)"

text \<open>
  The capture group at the text \<open>cs\<close> that follows an \<^verbatim>\<open>@\<close>: one alphanumeric,
  then the optional group (taken when it matches, empty otherwise).
\<close>

definition mention_at :: "js_string \<Rightarrow> js_string option" where
  "mention_at cs =
     (case cs of
        [] \<Rightarrow> None
      | c # rest \<Rightarrow>
          if is_alnum c then
            Some (c # (case greedy_tail rest of Some n \<Rightarrow> take n rest | None \<Rightarrow> []))
          else None)"

text \<open>
  \<^verbatim>\<open>text.matchAll(mentionPattern)\<close>: the matches from left to right, each with the
  index of its \<^verbatim>\<open>@\<close> (\<^verbatim>\<open>match.index\<close>) and its group 1; the search resumes behind
  the match. The first argument is the index of the head of the text still to scan.
\<close>

fun matchAll_mentions :: "nat \<Rightarrow> js_string \<Rightarrow> (nat \<times> js_string) list" where
  "matchAll_mentions i [] = []"
| "matchAll_mentions i (c # cs) =
     (if c = unit_of CHR ''@'' then
        (case mention_at cs of
           Some h \<Rightarrow> (i, h) # matchAll_mentions (i + 1 + length h) (drop (length h) cs)
         | None \<Rightarrow> matchAll_mentions (Suc i) cs)
      else matchAll_mentions (Suc i) cs)"

definition extractMentions :: "js_string option \<Rightarrow> js_string list" where
  "extractMentions text =
     (case text of
        None \<Rightarrow> []
      | Some t \<Rightarrow> if t = [] then [] else new_Set (map snd (matchAll_mentions 0 t)))"

section \<open>Ownership rules (\<^verbatim>\<open>matchPattern\<close>, \<^verbatim>\<open>parseCodeowners\<close>)\<close>

text \<open>
  \<^verbatim>\<open>
  function matchPattern(file, pattern) {
    if (pattern === '*') return true;
    if (pattern.startsWith('*.')) {
      const ext = pattern.substring(1);
      return file.endsWith(ext);
    }
    if (pattern.endsWith('/')) {
      return file.startsWith(pattern) || file.startsWith(pattern.substring(0, pattern.length - 1));
    }
    if (pattern.startsWith('/')) {
      return file === pattern.substring(1) || file.startsWith(pattern.substring(1) + '/');
    }
    return file.includes(pattern);
  }
  \<close>
\<close>

definition matchPattern :: "js_string \<Rightarrow> js_string \<Rightarrow> bool" where
  "matchPattern file pattern =
     (if pattern = str ''*'' then True
      else if startsWith pattern (str ''*.'') then
        (let ext = drop 1 pattern in endsWith file ext)
      else if endsWith pattern (str ''/'') then
        startsWith file pattern \<or> startsWith file (take (length pattern - 1) pattern)
      else if startsWith pattern (str ''/'') then
        file = drop 1 pattern \<or> startsWith file (drop 1 pattern @ str ''/'')
      else includes_str file pattern)"

record rule =
  pattern :: js_string
  owners :: "js_string list"

text \<open>
  \<^verbatim>\<open>
  function parseCodeowners(content) {
    const rules = [];
    const lines = content.split('\n');
    for (const line of lines) {
      const trimmed = line.trim();
      if (!trimmed || trimmed.startsWith('#')) continue;
      const parts = trimmed.split(/\s+/);
      if (parts.length < 2) continue;
      const pattern = parts[0];
      const owners = parts.slice(1)
        .filter(o => o.startsWith('@'))
        .map(o => o.substring(1));
      if (owners.length > 0) {
        rules.push({ pattern, owners });
      }
    }
    return rules.reverse();
  }
  \<close>
  \<open>parse_line\<close> is one turn of the loop: the rules pushed so far and the next line.
\<close>

definition parse_line :: "rule list \<Rightarrow> js_string \<Rightarrow> rule list" where
  "parse_line rules line =
     (let trimmed = trim line in
      if trimmed = [] \<or> startsWith trimmed (str ''#'') then rules
      else
        (let parts = split_ws trimmed in
         if length parts < 2 then rules
         else
           (let owners = map (drop 1) (filter (\<lambda>w. startsWith w (str ''@'')) (drop 1 parts)) in
            if length owners > 0
            then rules @ [\<lparr>pattern = hd parts, owners = owners\<rparr>]
            else rules)))"

definition parseCodeowners :: "js_string \<Rightarrow> rule list" where
  "parseCodeowners content = rev (foldl parse_line [] (split_char 0x0A content))"

section \<open>The outside world: requests, answers, configuration\<close>

text \<open>
  The answer of \<^verbatim>\<open>slackClient.users.lookupByEmail\<close>: the flag \<^verbatim>\<open>ok\<close> and, when
  the answer carries a \<^verbatim>\<open>user\<close>, that user's \<^verbatim>\<open>id\<close>.
\<close>

record lookup_response =
  ok :: bool
  user :: "js_string option"

text \<open>The answer of \<^verbatim>\<open>chat.postMessage\<close> and \<^verbatim>\<open>chat.update\<close>.\<close>

record chat_response =
  ok :: bool
  ts :: js_string
  error :: js_string

text \<open>
  The pull request as GitHub sends it (webhook payload, \<^verbatim>\<open>pulls.get\<close>), with the
  fields the core reads; the fields that are only displayed (URLs, branch names, diff
  statistics, assignees) are left out.
\<close>

record pull_request =
  number :: nat
  title :: js_string
  user_login :: js_string
  body :: "js_string option"
  draft :: bool
  requested_reviewers :: "js_string list"

record repository =
  name :: js_string
  full_name :: js_string
  html_url :: js_string

record payload =
  pull_request :: "pull_request option"
  repository :: "repository option"

text \<open>The result of \<^verbatim>\<open>parsePRData\<close> and of \<^verbatim>\<open>parseCommentData\<close>.\<close>

record prData =
  number :: nat
  title :: js_string
  author :: js_string
  body :: js_string
  isDraft :: bool
  reviewers :: "js_string list"
  repo :: repository

record commentData =
  eventType :: js_string
  prNumber :: nat
  author :: js_string
  body :: "js_string option"
  url :: js_string
  reviewState :: "js_string option"

text \<open>
  The message composers \<^verbatim>\<open>createPRNotificationMessage\<close> and
  \<^verbatim>\<open>createCommentMessage\<close> are kept abstract: a message is the composer applied to
  its arguments.
\<close>

datatype message =
    PRNotificationMessage prData "js_string list" "js_string option" js_string
  | CommentMessage commentData "js_string list" "js_string option"

record config =
  email_mappings :: "js_string \<Rightarrow> js_string option"
  default_reviewers :: "js_string list"
  auto_match_by_email :: bool

text \<open>
  The requests one run can make. \<open>Call_getPRStatus\<close> and \<open>Call_updatePRStatus\<close>
  stand for the two helpers that the entry file imports from \<^verbatim>\<open>./src/github\<close> and
  that the sources at hand do not contain.
\<close>

datatype call =
    Slack_users_lookupByEmail js_string
  | GitHub_users_getByUsername js_string
  | GitHub_pulls_get nat
  | GitHub_pulls_listFiles nat
  | GitHub_repos_getContent js_string
  | GitHub_pulls_update nat js_string
  | Slack_chat_postMessage js_string "js_string option" message
  | Slack_chat_update js_string js_string message
  | Call_getPRStatus nat
  | Call_updatePRStatus nat js_string

text \<open>
  How the outside answers. \<open>repos_getContent\<close> gives the \<^verbatim>\<open>content\<close> field of
  the answer (base64, possibly absent) and \<open>base64_decode\<close> is
  \<^verbatim>\<open>Buffer.from(_, 'base64').toString('utf-8')\<close>. \<open>getPRStatus\<close> and
  \<open>updatePRStatus\<close> are the two helpers missing from the sources, taken as
  parameters: whatever they do, they return a status (or nothing) or throw.
\<close>

record env =
  users_lookupByEmail :: "js_string \<Rightarrow> js_error + lookup_response"
  users_getByUsername :: "js_string \<Rightarrow> js_error + js_string option"
  pulls_get :: "nat \<Rightarrow> js_error + pull_request"
  pulls_listFiles :: "nat \<Rightarrow> js_error + js_string list"
  repos_getContent :: "js_string \<Rightarrow> js_error + js_string option"
  base64_decode :: "js_string \<Rightarrow> js_string"
  pulls_update :: "nat \<Rightarrow> js_string \<Rightarrow> js_error + unit"
  chat_postMessage :: "js_string \<Rightarrow> js_string option \<Rightarrow> message \<Rightarrow> js_error + chat_response"
  chat_update :: "js_string \<Rightarrow> js_string \<Rightarrow> message \<Rightarrow> js_error + chat_response"
  getPRStatus :: "nat \<Rightarrow> js_error + js_string"
  updatePRStatus :: "nat \<Rightarrow> js_string \<Rightarrow> js_error + unit"

section \<open>Identity mapping (\<^verbatim>\<open>src/mapper.js\<close>)\<close>

text \<open>
  \<^verbatim>\<open>
  async function emailToSlackId(slackClient, email) {
    try {
      const result = await slackClient.users.lookupByEmail({ email });
      if (result.ok && result.user) {
        return result.user.id;
      }
    } catch (error) {
      core.debug(...);
    }
    return null;
  }
  \<close>
\<close>

definition emailToSlackId :: "env \<Rightarrow> js_string \<Rightarrow> js_string option \<times> call list" where
  "emailToSlackId e email =
     (case users_lookupByEmail e email of
        Inl err \<Rightarrow> None
      | Inr result \<Rightarrow>
          if lookup_response.ok result \<and> user result \<noteq> None then user result else None,
      [Slack_users_lookupByEmail email])"

text \<open>
  \<^verbatim>\<open>
  async function getGitHubUserEmail(octokit, username) {
    try {
      const { data: user } = await octokit.rest.users.getByUsername({ username });
      return user.email;
    } catch (error) {
      return null;
    }
  }
  \<close>
\<close>

definition getGitHubUserEmail :: "env \<Rightarrow> js_string \<Rightarrow> js_string option \<times> call list" where
  "getGitHubUserEmail e username =
     (case users_getByUsername e username of
        Inl err \<Rightarrow> None
      | Inr email \<Rightarrow> email,
      [GitHub_users_getByUsername username])"

text \<open>
  \<^verbatim>\<open>
  async function mapGitHubUserToSlack(slackClient, octokit, githubUsername, config) {
    const mappedEmail = config.email_mappings[githubUsername];
    if (mappedEmail) {
      const slackId = await emailToSlackId(slackClient, mappedEmail);
      if (slackId) { return slackId; }
    }
    if (config.auto_match_by_email) {
      const githubEmail = await getGitHubUserEmail(octokit, githubUsername);
      if (githubEmail) {
        const slackId = await emailToSlackId(slackClient, githubEmail);
        if (slackId) { return slackId; }
      }
    }
    return null;
  }
  \<close>
  \<open>table_step\<close> is the first \<^verbatim>\<open>if\<close>, \<open>auto_step\<close> the second; each gives the id
  it would return (if any) and the requests it made. The mapping table is a map from
  handles to mailboxes; a handle that names a property which every JavaScript object
  inherits (\<^verbatim>\<open>constructor\<close>, \<^verbatim>\<open>toString\<close>) is outside the model.
\<close>

definition table_step :: "env \<Rightarrow> js_string \<Rightarrow> config \<Rightarrow> js_string option \<times> call list" where
  "table_step e githubUsername cfg =
     (let mappedEmail = email_mappings cfg githubUsername in
      if truthy mappedEmail then
        (case mappedEmail of
           Some m \<Rightarrow> (let (slackId, t) = emailToSlackId e m in
                      (if truthy slackId then slackId else None, t))
         | None \<Rightarrow> (None, []))
      else (None, []))"

definition auto_step :: "env \<Rightarrow> js_string \<Rightarrow> js_string option \<times> call list" where
  "auto_step e githubUsername =
     (let (githubEmail, t1) = getGitHubUserEmail e githubUsername in
      if truthy githubEmail then
        (case githubEmail of
           Some g \<Rightarrow> (let (slackId, t2) = emailToSlackId e g in
                      (if truthy slackId then slackId else None, t1 @ t2))
         | None \<Rightarrow> (None, t1))
      else (None, t1))"

definition mapGitHubUserToSlack :: "env \<Rightarrow> js_string \<Rightarrow> config \<Rightarrow> js_string option \<times> call list" where
  "mapGitHubUserToSlack e githubUsername cfg =
     (let (r1, t1) = table_step e githubUsername cfg in
      if r1 \<noteq> None then (r1, t1)
      else if auto_match_by_email cfg then
        (let (r2, t2) = auto_step e githubUsername in (r2, t1 @ t2))
      else (None, t1))"

text \<open>
  \<^verbatim>\<open>
  async function mapGitHubUsersToSlack(slackClient, octokit, githubUsernames, config) {
    const slackIds = [];
    for (const username of githubUsernames) {
      const slackId = await mapGitHubUserToSlack(slackClient, octokit, username, config);
      if (slackId) { slackIds.push(slackId); }
    }
    return slackIds;
  }
  \<close>
\<close>

fun mapGitHubUsersToSlack :: "env \<Rightarrow> js_string list \<Rightarrow> config \<Rightarrow> js_string list \<times> call list" where
  "mapGitHubUsersToSlack e [] cfg = ([], [])"
| "mapGitHubUsersToSlack e (username # rest) cfg =
     (let (slackId, t) = mapGitHubUserToSlack e username cfg;
          (slackIds, t') = mapGitHubUsersToSlack e rest cfg
      in (case slackId of
            Some s \<Rightarrow> if truthy slackId then s # slackIds else slackIds
          | None \<Rightarrow> slackIds,
          t @ t'))"

text \<open>
  \<^verbatim>\<open>
  async function getDefaultReviewersSlackIds(slackClient, defaultReviewers) {
    const slackIds = [];
    for (const email of defaultReviewers) {
      const slackId = await emailToSlackId(slackClient, email);
      if (slackId) { slackIds.push(slackId); } else { core.warning(...); }
    }
    return slackIds;
  }
  \<close>
\<close>

fun getDefaultReviewersSlackIds :: "env \<Rightarrow> js_string list \<Rightarrow> js_string list \<times> call list" where
  "getDefaultReviewersSlackIds e [] = ([], [])"
| "getDefaultReviewersSlackIds e (email # rest) =
     (let (slackId, t) = emailToSlackId e email;
          (slackIds, t') = getDefaultReviewersSlackIds e rest
      in (case slackId of
            Some s \<Rightarrow> if truthy slackId then s # slackIds else slackIds
          | None \<Rightarrow> slackIds,
          t @ t'))"

section \<open>Code owners of a pull request (\<^verbatim>\<open>getCodeOwners\<close>)\<close>

text \<open>
  \<^verbatim>\<open>
  async function getChangedFiles(octokit, owner, repo, prNumber) {
    try {
      const { data: files } = await octokit.rest.pulls.listFiles({...});
      return files.map(file => file.filename);
    } catch (error) {
      return [];
    }
  }
  \<close>
\<close>

definition getChangedFiles :: "env \<Rightarrow> nat \<Rightarrow> js_string list \<times> call list" where
  "getChangedFiles e pr_number =
     (case pulls_listFiles e pr_number of
        Inl err \<Rightarrow> []
      | Inr files \<Rightarrow> files,
      [GitHub_pulls_listFiles pr_number])"

text \<open>
  The search for the ownership file in \<^verbatim>\<open>getCodeOwners\<close>:
  \<^verbatim>\<open>
    const paths = ['.github/CODEOWNERS', 'CODEOWNERS', 'docs/CODEOWNERS'];
    let codeownersContent = null;
    for (const path of paths) {
      try {
        const { data } = await octokit.rest.repos.getContent({ owner, repo, path });
        if (data.content) {
          codeownersContent = Buffer.from(data.content, 'base64').toString('utf-8');
          break;
        }
      } catch (error) {
        continue;
      }
    }
  \<close>
\<close>

definition CODEOWNERS_paths :: "js_string list" where
  "CODEOWNERS_paths = [str ''.github/CODEOWNERS'', str ''CODEOWNERS'', str ''docs/CODEOWNERS'']"

fun find_codeowners :: "env \<Rightarrow> js_string list \<Rightarrow> js_string option \<times> call list" where
  "find_codeowners e [] = (None, [])"
| "find_codeowners e (path # paths) =
     (case repos_getContent e path of
        Inl err \<Rightarrow>
          (let (r, t) = find_codeowners e paths in (r, GitHub_repos_getContent path # t))
      | Inr content \<Rightarrow>
          if truthy content then
            (case content of
               Some c \<Rightarrow> (Some (base64_decode e c), [GitHub_repos_getContent path])
             | None \<Rightarrow> (None, [GitHub_repos_getContent path]))
          else
            (let (r, t) = find_codeowners e paths in (r, GitHub_repos_getContent path # t)))"

text \<open>
  The two nested loops of \<^verbatim>\<open>getCodeOwners\<close>:
  \<^verbatim>\<open>
    const ownersSet = new Set();
    for (const file of changedFiles) {
      for (const rule of rules) {
        if (matchPattern(file, rule.pattern)) {
          rule.owners.forEach(owner => ownersSet.add(owner));
          break;
        }
      }
    }
  \<close>
  \<open>scan_rules\<close> is the inner loop for one file, \<open>collect_owners\<close> the outer one.
\<close>

fun scan_rules :: "js_string list \<Rightarrow> js_string \<Rightarrow> rule list \<Rightarrow> js_string list" where
  "scan_rules ownersSet file [] = ownersSet"
| "scan_rules ownersSet file (r # rules) =
     (if matchPattern file (pattern r) then foldl Set_add ownersSet (owners r)
      else scan_rules ownersSet file rules)"

definition collect_owners :: "rule list \<Rightarrow> js_string list \<Rightarrow> js_string list" where
  "collect_owners rules changedFiles =
     foldl (\<lambda>ownersSet file. scan_rules ownersSet file rules) [] changedFiles"

text \<open>
  \<^verbatim>\<open>
  async function getCodeOwners(octokit, owner, repo, prNumber) {
    try {
      const changedFiles = await getChangedFiles(octokit, owner, repo, prNumber);
      if (changedFiles.length === 0) { return []; }
      ... (the search above)
      if (!codeownersContent) { return []; }
      const rules = parseCodeowners(codeownersContent);
      ... (the loops above)
      const owners = Array.from(ownersSet);
      return owners;
    } catch (error) {
      return [];
    }
  }
  \<close>
  Every request inside is caught where it is made, so the outer \<^verbatim>\<open>catch\<close> has
  nothing left to catch.
\<close>

definition getCodeOwners :: "env \<Rightarrow> nat \<Rightarrow> js_string list \<times> call list" where
  "getCodeOwners e pr_number =
     (let (changedFiles, t1) = getChangedFiles e pr_number in
      if length changedFiles = 0 then ([], t1)
      else
        (let (codeownersContent, t2) = find_codeowners e CODEOWNERS_paths in
         if \<not> truthy codeownersContent then ([], t1 @ t2)
         else
           (case codeownersContent of
              Some content \<Rightarrow> (collect_owners (parseCodeowners content) changedFiles, t1 @ t2)
            | None \<Rightarrow> ([], t1 @ t2))))"

section \<open>The thread pointer in the pull-request body\<close>

text \<open>
  \<^verbatim>\<open>body.match(/<!-- slack-thread-ts: (.+?) -->/)\<close>. At one start position the
  literal prefix must be there; the lazy group then takes one character that is not a line
  terminator and grows by one such character at a time until \<^verbatim>\<open> -->\<close> follows.
  \<open>lazy_capture close acc rest\<close> is the group holding \<open>acc\<close> in front of \<open>rest\<close>;
  \<open>marker_at\<close> is the whole pattern at the head of a text, \<open>marker_search\<close> the
  leftmost start position that matches.
\<close>

fun lazy_capture :: "js_string \<Rightarrow> js_string \<Rightarrow> js_string \<Rightarrow> js_string option" where
  "lazy_capture close acc [] = (if startsWith [] close then Some acc else None)"
| "lazy_capture close acc (c # cs) =
     (if startsWith (c # cs) close then Some acc
      else if is_line_terminator c then None
      else lazy_capture close (acc @ [c]) cs)"

definition marker_at :: "js_string \<Rightarrow> js_string \<Rightarrow> js_string option" where
  "marker_at pre s =
     (if startsWith s pre then
        (case drop (length pre) s of
           [] \<Rightarrow> None
         | c # cs \<Rightarrow> if is_line_terminator c then None else lazy_capture (str '' -->'') [c] cs)
      else None)"

fun marker_search :: "js_string \<Rightarrow> js_string \<Rightarrow> js_string option" where
  "marker_search pre [] = marker_at pre []"
| "marker_search pre (c # cs) =
     (case marker_at pre (c # cs) of
        Some m \<Rightarrow> Some m
      | None \<Rightarrow> marker_search pre cs)"

text \<open>
  \<^verbatim>\<open>
  async function getSlackThreadTs(octokit, owner, repo, prNumber) {
    try {
      const { data: pr } = await octokit.rest.pulls.get({...});
      const body = pr.body || '';
      const match = body.match(/<!-- slack-thread-ts: (.+?) -->/);
      if (match && match[1]) { return match[1]; }
      return null;
    } catch (error) {
      return null;
    }
  }
  \<close>
  \<open>readThreadTs\<close> is what the function does with the body once it has it.
\<close>

definition readThreadTs :: "js_string \<Rightarrow> js_string option" where
  "readThreadTs b =
     (let m = marker_search (str ''<!-- slack-thread-ts: '') b in
      if truthy m then m else None)"

definition getSlackThreadTs :: "env \<Rightarrow> nat \<Rightarrow> js_string option \<times> call list" where
  "getSlackThreadTs e pr_number =
     (case pulls_get e pr_number of
        Inl err \<Rightarrow> None
      | Inr pr \<Rightarrow>
          readThreadTs (case pull_request.body pr of Some b \<Rightarrow> b | None \<Rightarrow> []),
      [GitHub_pulls_get pr_number])"

text \<open>
  The body that \<^verbatim>\<open>handlePROpened\<close> writes back:
  \<^verbatim>\<open>
    body: prData.body + `\n\n<!-- slack-thread-ts: ${result.ts} -->\n<!-- slack-status: ${initialStatus} -->`
  \<close>
  The handler itself always passes the initial status.
\<close>

definition writeMarkers :: "js_string \<Rightarrow> js_string \<Rightarrow> js_string \<Rightarrow> js_string" where
  "writeMarkers b threadTs status =
     b @ [0x0A, 0x0A] @ str ''<!-- slack-thread-ts: '' @ threadTs @ str '' -->''
          @ [0x0A] @ str ''<!-- slack-status: '' @ status @ str '' -->''"

text \<open>
  Modelled from the spec: the reader of the status marker (\<^verbatim>\<open>getPRStatus\<close> is
  imported by the entry file but is not in the sources). The spec lays the marker out as
  \<^verbatim>\<open><!-- slack-status: {status-enum-value} -->\<close> next to the thread marker and asks
  that both be "extractable via a tolerant pattern that ignores surrounding content";
  the reader below is the thread reader with the other marker name.
\<close>

definition readStatus :: "js_string \<Rightarrow> js_string option" where
  "readStatus b =
     (let m = marker_search (str ''<!-- slack-status: '') b in
      if truthy m then m else None)"

text \<open>
  Modelled from the spec: the values of the table \<^verbatim>\<open>PR_STATUS\<close> (imported by the
  entry file, not in the sources), as the spec's status enumeration lists them.
\<close>

definition REVIEW_PENDING :: js_string where "REVIEW_PENDING = str ''review-pending''"
definition IN_REVIEW :: js_string where "IN_REVIEW = str ''in-review''"
definition APPROVED :: js_string where "APPROVED = str ''approved''"
definition CHANGES_REQUESTED :: js_string where "CHANGES_REQUESTED = str ''changes-requested''"
definition MERGED :: js_string where "MERGED = str ''merged''"
definition CLOSED :: js_string where "CLOSED = str ''closed''"

section \<open>Parsing the event, sending messages\<close>

text \<open>
  \<^verbatim>\<open>
  function parsePRData(context) {
    const { pull_request } = context.payload;
    if (!pull_request) {
      throw new Error('This action must be triggered by a pull_request event');
    }
    const prData = {
      number: pull_request.number, title: pull_request.title, ...
      author: pull_request.user.login, body: pull_request.body || '', ...
      isDraft: pull_request.draft || false,
      reviewers: (pull_request.requested_reviewers || []).map(r => r.login), ...
      repo: { name: context.payload.repository.name, ... }
    };
    return prData;
  }
  \<close>
  Reading \<^verbatim>\<open>context.payload.repository.name\<close> throws a \<^verbatim>\<open>TypeError\<close> when the
  payload has no \<^verbatim>\<open>repository\<close> (the message is the one of the V8 engine).
\<close>

definition parsePRData :: "payload \<Rightarrow> js_error + prData" where
  "parsePRData p =
     (case pull_request p of
        None \<Rightarrow> Inl (Error (str ''This action must be triggered by a pull_request event''))
      | Some pr \<Rightarrow>
          (case repository p of
             None \<Rightarrow> Inl (TypeError (str ''Cannot read properties of undefined (reading 'name')''))
           | Some r \<Rightarrow>
               Inr \<lparr>prData.number = pull_request.number pr,
                    prData.title = pull_request.title pr,
                    prData.author = user_login pr,
                    prData.body = (case pull_request.body pr of Some b \<Rightarrow> b | None \<Rightarrow> []),
                    isDraft = draft pr,
                    reviewers = requested_reviewers pr,
                    repo = r\<rparr>))"

text \<open>
  \<^verbatim>\<open>sendSlackMessage\<close>, \<^verbatim>\<open>sendThreadReply\<close> and \<^verbatim>\<open>updateSlackMessage\<close> have
  one shape:
  \<^verbatim>\<open>
    try {
      const result = await slackClient.chat.postMessage({ channel, ...message });
      if (result.ok) { return result; }
      else { throw new Error(`Slack API returned error: ${result.error}`); }
    } catch (error) {
      core.error(...);
      throw error;
    }
  \<close>
\<close>

definition check_ok :: "js_error + chat_response \<Rightarrow> js_error + chat_response" where
  "check_ok r =
     (case r of
        Inl err \<Rightarrow> Inl err
      | Inr result \<Rightarrow>
          if chat_response.ok result then Inr result
          else Inl (Error (str ''Slack API returned error: '' @ error result)))"

definition sendSlackMessage ::
  "env \<Rightarrow> js_string \<Rightarrow> message \<Rightarrow> (js_error + chat_response) \<times> call list" where
  "sendSlackMessage e channel msg =
     (check_ok (chat_postMessage e channel None msg), [Slack_chat_postMessage channel None msg])"

definition sendThreadReply ::
  "env \<Rightarrow> js_string \<Rightarrow> js_string \<Rightarrow> message \<Rightarrow> (js_error + chat_response) \<times> call list" where
  "sendThreadReply e channel threadTs msg =
     (check_ok (chat_postMessage e channel (Some threadTs) msg),
      [Slack_chat_postMessage channel (Some threadTs) msg])"

definition updateSlackMessage ::
  "env \<Rightarrow> js_string \<Rightarrow> js_string \<Rightarrow> message \<Rightarrow> (js_error + chat_response) \<times> call list" where
  "updateSlackMessage e channel messageTs msg =
     (check_ok (chat_update e channel messageTs msg), [Slack_chat_update channel messageTs msg])"

section \<open>\<^verbatim>\<open>handlePROpened\<close>\<close>

text \<open>
  The loops \<^verbatim>\<open>xs.forEach(r => { if (r !== prData.author) { allReviewers.add(r); } })\<close>.
\<close>

definition add_unless_author :: "js_string \<Rightarrow> js_string list \<Rightarrow> js_string list \<Rightarrow> js_string list" where
  "add_unless_author a allReviewers xs =
     foldl (\<lambda>s r. if r \<noteq> a then Set_add s r else s) allReviewers xs"

text \<open>
  The part of \<^verbatim>\<open>handlePROpened\<close> that decides whom to notify; it ends with the line
  that logs the number of ids and the source label. The result is the pair
  \<^verbatim>\<open>(reviewerSlackIds, reviewerSource)\<close>.
  \<^verbatim>\<open>
  const allReviewers = new Set();
  const sources = [];
  if (prData.reviewers.length > 0) {
    prData.reviewers.forEach(r => { if (r !== prData.author) { allReviewers.add(r); } });
    sources.push('reviewers');
  }
  const codeOwners = await getCodeOwners(octokit, ..., prData.number);
  if (codeOwners.length > 0) {
    codeOwners.forEach(o => { if (o !== prData.author) { allReviewers.add(o); } });
    sources.push('codeowners');
  }
  let reviewerSlackIds = [];
  let reviewerSource = 'none';
  if (allReviewers.size > 0) {
    reviewerSlackIds = await mapGitHubUsersToSlack(slackClient, octokit, Array.from(allReviewers), config);
    reviewerSource = sources.join(' + ');
  }
  if (config.default_reviewers.length > 0) {
    const defaultSlackIds = await getDefaultReviewersSlackIds(slackClient, config.default_reviewers);
    const uniqueSlackIds = new Set([...reviewerSlackIds, ...defaultSlackIds]);
    reviewerSlackIds = Array.from(uniqueSlackIds);
    if (defaultSlackIds.length > 0) {
      sources.push('default');
      reviewerSource = sources.join(' + ');
    }
  }
  core.info(`Notifying ${reviewerSlackIds.length} Slack users (source: ${reviewerSource})`);
  \<close>
\<close>

definition collectReviewers ::
  "env \<Rightarrow> config \<Rightarrow> prData \<Rightarrow> (js_string list \<times> js_string) \<times> call list" where
  "collectReviewers e cfg d =
     (let allReviewers0 = [];
          sources0 = [];
          (allReviewers1, sources1) =
            (if length (reviewers d) > 0
             then (add_unless_author (prData.author d) allReviewers0 (reviewers d),
                   sources0 @ [str ''reviewers''])
             else (allReviewers0, sources0));
          (codeOwners, t1) = getCodeOwners e (prData.number d);
          (allReviewers2, sources2) =
            (if length codeOwners > 0
             then (add_unless_author (prData.author d) allReviewers1 codeOwners,
                   sources1 @ [str ''codeowners''])
             else (allReviewers1, sources1));
          ((reviewerSlackIds1, reviewerSource1), t2) =
            (if length allReviewers2 > 0
             then (let (ids, t) = mapGitHubUsersToSlack e allReviewers2 cfg
                   in ((ids, join (str '' + '') sources2), t))
             else (([], str ''none''), []));
          ((reviewerSlackIds2, reviewerSource2), t3) =
            (if length (default_reviewers cfg) > 0
             then (let (defaultSlackIds, t) = getDefaultReviewersSlackIds e (default_reviewers cfg);
                       uniqueSlackIds = new_Set (reviewerSlackIds1 @ defaultSlackIds)
                   in ((uniqueSlackIds,
                        if length defaultSlackIds > 0
                        then join (str '' + '') (sources2 @ [str ''default''])
                        else reviewerSource1), t))
             else ((reviewerSlackIds1, reviewerSource1), []))
      in ((reviewerSlackIds2, reviewerSource2), t1 @ t2 @ t3))"

text \<open>
  \<^verbatim>\<open>
  async function handlePROpened(slackClient, octokit, context, config, slackChannel) {
    const prData = parsePRData(context);
    const authorSlackId = await mapGitHubUserToSlack(slackClient, octokit, prData.author, config);
    ... (the part above)
    const initialStatus = PR_STATUS.REVIEW_PENDING;
    const message = createPRNotificationMessage(prData, reviewerSlackIds, authorSlackId, initialStatus);
    const result = await sendSlackMessage(slackClient, slackChannel, message);
    await octokit.rest.pulls.update({ ..., pull_number: prData.number,
      body: prData.body + `\n\n<!-- slack-thread-ts: ${result.ts} -->\n<!-- slack-status: ${initialStatus} -->`
    });
  }
  \<close>
\<close>

definition handlePROpened ::
  "env \<Rightarrow> payload \<Rightarrow> config \<Rightarrow> js_string \<Rightarrow> (js_error + unit) \<times> call list" where
  "handlePROpened e ctx cfg slackChannel =
     (case parsePRData ctx of
        Inl err \<Rightarrow> (Inl err, [])
      | Inr d \<Rightarrow>
          (let (authorSlackId, t0) = mapGitHubUserToSlack e (prData.author d) cfg;
               ((reviewerSlackIds, reviewerSource), t1) = collectReviewers e cfg d;
               initialStatus = REVIEW_PENDING;
               msg = PRNotificationMessage d reviewerSlackIds authorSlackId initialStatus;
               (sent, t2) = sendSlackMessage e slackChannel msg
           in (case sent of
                 Inl err \<Rightarrow> (Inl err, t0 @ t1 @ t2)
               | Inr result \<Rightarrow>
                   (let newBody = writeMarkers (prData.body d) (ts result) initialStatus;
                        t3 = [GitHub_pulls_update (prData.number d) newBody]
                    in (case pulls_update e (prData.number d) newBody of
                          Inl err \<Rightarrow> (Inl err, t0 @ t1 @ t2 @ t3)
                        | Inr u \<Rightarrow> (Inr (), t0 @ t1 @ t2 @ t3))))))"

section \<open>\<^verbatim>\<open>handleComment\<close>\<close>

text \<open>
  The status decision:
  \<^verbatim>\<open>
  let newStatus = currentStatus;
  if (commentData.reviewState === 'approved') {
    newStatus = PR_STATUS.APPROVED;
  } else if (commentData.reviewState === 'changes_requested') {
    newStatus = PR_STATUS.CHANGES_REQUESTED;
  } else if (currentStatus === PR_STATUS.REVIEW_PENDING) {
    newStatus = PR_STATUS.IN_REVIEW;
  }
  \<close>
\<close>

definition nextStatus :: "js_string option \<Rightarrow> js_string \<Rightarrow> js_string" where
  "nextStatus review_state currentStatus =
     (if review_state = Some (str ''approved'') then APPROVED
      else if review_state = Some (str ''changes_requested'') then CHANGES_REQUESTED
      else if currentStatus = REVIEW_PENDING then IN_REVIEW
      else currentStatus)"

text \<open>
  The branch \<^verbatim>\<open>if (newStatus !== currentStatus) { ... }\<close>:
  \<^verbatim>\<open>
    await updatePRStatus(octokit, ..., commentData.prNumber, newStatus);
    const { data: pr } = await octokit.rest.pulls.get({...});
    const prData = { ...parsePRData({ payload: { pull_request: pr } }), body: pr.body };
    const allReviewers = new Set();
    if (pr.requested_reviewers && pr.requested_reviewers.length > 0) {
      pr.requested_reviewers.forEach(r => {
        if (r.login !== pr.user.login) { allReviewers.add(r.login); }
      });
    }
    const reviewerSlackIds = await mapGitHubUsersToSlack(slackClient, octokit, Array.from(allReviewers), config);
    const authorSlackIdForUpdate = await mapGitHubUserToSlack(slackClient, octokit, pr.user.login, config);
    const updatedMessage = createPRNotificationMessage(prData, reviewerSlackIds, authorSlackIdForUpdate, newStatus);
    await updateSlackMessage(slackClient, slackChannel, threadTs, updatedMessage);
  \<close>
  The payload handed to \<^verbatim>\<open>parsePRData\<close> here has a pull request and no repository.
\<close>

definition updateHeadMessage ::
  "env \<Rightarrow> config \<Rightarrow> js_string \<Rightarrow> nat \<Rightarrow> js_string \<Rightarrow> js_string \<Rightarrow> (js_error + unit) \<times> call list" where
  "updateHeadMessage e cfg slackChannel pr_number threadTs newStatus =
     (let t0 = [Call_updatePRStatus pr_number newStatus] in
      case updatePRStatus e pr_number newStatus of
        Inl err \<Rightarrow> (Inl err, t0)
      | Inr u \<Rightarrow>
          (let t1 = [GitHub_pulls_get pr_number] in
           case pulls_get e pr_number of
             Inl err \<Rightarrow> (Inl err, t0 @ t1)
           | Inr pr \<Rightarrow>
               (case parsePRData \<lparr>pull_request = Some pr, repository = None\<rparr> of
                  Inl err \<Rightarrow> (Inl err, t0 @ t1)
                | Inr parsed \<Rightarrow>
                    (let d = parsed\<lparr>prData.body :=
                               (case pull_request.body pr of Some b \<Rightarrow> b | None \<Rightarrow> [])\<rparr>;
                         allReviewers =
                           (if length (requested_reviewers pr) > 0
                            then add_unless_author (user_login pr) [] (requested_reviewers pr)
                            else []);
                         (reviewerSlackIds, t2) = mapGitHubUsersToSlack e allReviewers cfg;
                         (authorSlackIdForUpdate, t3) = mapGitHubUserToSlack e (user_login pr) cfg;
                         updatedMessage =
                           PRNotificationMessage d reviewerSlackIds authorSlackIdForUpdate newStatus;
                         (r, t4) = updateSlackMessage e slackChannel threadTs updatedMessage
                     in (case r of
                           Inl err \<Rightarrow> (Inl err, t0 @ t1 @ t2 @ t3 @ t4)
                         | Inr ok_result \<Rightarrow> (Inr (), t0 @ t1 @ t2 @ t3 @ t4))))))"

text \<open>
  Whom the thread reply is for:
  \<^verbatim>\<open>
  let targetUsers = [];
  if (commentData.reviewState === 'approved' || commentData.reviewState === 'changes_requested') {
    const { data: pr } = await octokit.rest.pulls.get({...});
    targetUsers.push(pr.user.login);
  }
  const mentions = extractMentions(commentData.body);
  if (mentions.length > 0) { targetUsers.push(...mentions); }
  \<close>
\<close>

definition targetUsers :: "env \<Rightarrow> commentData \<Rightarrow> (js_error + js_string list) \<times> call list" where
  "targetUsers e cd =
     (let mentions = extractMentions (commentData.body cd) in
      if reviewState cd = Some (str ''approved'') \<or> reviewState cd = Some (str ''changes_requested'') then
        (case pulls_get e (prNumber cd) of
           Inl err \<Rightarrow> (Inl err, [GitHub_pulls_get (prNumber cd)])
         | Inr pr \<Rightarrow> (Inr ([user_login pr] @ mentions), [GitHub_pulls_get (prNumber cd)]))
      else (Inr mentions, []))"

text \<open>
  The rest of \<^verbatim>\<open>handleComment\<close>:
  \<^verbatim>\<open>
  if (targetUsers.length === 0) { return; }
  targetUsers = [...new Set(targetUsers)];
  const targetSlackIds = await mapGitHubUsersToSlack(slackClient, octokit, targetUsers, config);
  if (targetSlackIds.length === 0) { return; }
  const authorSlackId = await mapGitHubUserToSlack(slackClient, octokit, commentData.author, config);
  const message = createCommentMessage(commentData, targetSlackIds, authorSlackId, null);
  await sendThreadReply(slackClient, slackChannel, threadTs, message);
  \<close>
\<close>

definition notifyThread ::
  "env \<Rightarrow> config \<Rightarrow> js_string \<Rightarrow> commentData \<Rightarrow> js_string \<Rightarrow> (js_error + unit) \<times> call list" where
  "notifyThread e cfg slackChannel cd threadTs =
     (case targetUsers e cd of
        (Inl err, t0) \<Rightarrow> (Inl err, t0)
      | (Inr targets, t0) \<Rightarrow>
          if length targets = 0 then (Inr (), t0)
          else
            (let (targetSlackIds, t1) = mapGitHubUsersToSlack e (new_Set targets) cfg in
             if length targetSlackIds = 0 then (Inr (), t0 @ t1)
             else
               (let (authorSlackId, t2) = mapGitHubUserToSlack e (commentData.author cd) cfg;
                    msg = CommentMessage cd targetSlackIds authorSlackId;
                    (r, t3) = sendThreadReply e slackChannel threadTs msg
                in (case r of
                      Inl err \<Rightarrow> (Inl err, t0 @ t1 @ t2 @ t3)
                    | Inr ok_result \<Rightarrow> (Inr (), t0 @ t1 @ t2 @ t3)))))"

text \<open>
  \<^verbatim>\<open>
  async function handleComment(slackClient, octokit, context, config, slackChannel) {
    const commentData = parseCommentData(context);
    if (commentData.author === 'github-actions[bot]') { return; }
    const threadTs = await getSlackThreadTs(octokit, ..., commentData.prNumber);
    if (!threadTs) { return; }
    const currentStatus = await getPRStatus(octokit, ..., commentData.prNumber);
    ... (the status decision)
    if (newStatus !== currentStatus) { ... (the branch above) }
    ... (the thread reply)
  }
  \<close>
  The model starts from the parsed event.
\<close>

definition handleComment ::
  "env \<Rightarrow> commentData \<Rightarrow> config \<Rightarrow> js_string \<Rightarrow> (js_error + unit) \<times> call list" where
  "handleComment e cd cfg slackChannel =
     (if commentData.author cd = str ''github-actions[bot]'' then (Inr (), [])
      else
        (let (threadTs, t0) = getSlackThreadTs e (prNumber cd) in
         case threadTs of
           None \<Rightarrow> (Inr (), t0)
         | Some thread_ts \<Rightarrow>
             (let t1 = [Call_getPRStatus (prNumber cd)] in
              case getPRStatus e (prNumber cd) of
                Inl err \<Rightarrow> (Inl err, t0 @ t1)
              | Inr currentStatus \<Rightarrow>
                  (let newStatus = nextStatus (reviewState cd) currentStatus;
                       (r2, t2) =
                         (if newStatus \<noteq> currentStatus
                          then updateHeadMessage e cfg slackChannel (prNumber cd) thread_ts newStatus
                          else (Inr (), []))
                   in (case r2 of
                         Inl err \<Rightarrow> (Inl err, t0 @ t1 @ t2)
                       | Inr u \<Rightarrow>
                           (let (r3, t3) = notifyThread e cfg slackChannel cd thread_ts
                            in (r3, t0 @ t1 @ t2 @ t3)))))))"

section \<open>Notions of the specification\<close>

text \<open>
  A mention, in the words of the specification: an \<^verbatim>\<open>@\<close> followed by one
  alphanumeric, then any run of alphanumerics and hyphens that does not end in a hyphen.
  \<open>is_mention_start t p\<close> says that the text \<open>t\<close> has such an \<^verbatim>\<open>@\<close> at index
  \<open>p\<close>; \<open>handle_behind t p\<close> is the token behind it: the whole run of alphanumerics
  and hyphens that follows the \<^verbatim>\<open>@\<close>, without the hyphens at its end.
\<close>

definition is_mention_start :: "js_string \<Rightarrow> nat \<Rightarrow> bool" where
  "is_mention_start t p =
     (Suc p < length t \<and> t ! p = unit_of CHR ''@'' \<and> is_alnum (t ! Suc p))"

definition handle_behind :: "js_string \<Rightarrow> nat \<Rightarrow> js_string" where
  "handle_behind t p =
     rev (dropWhile (\<lambda>c. c = unit_of CHR ''-'')
            (rev (takeWhile is_handle_char (drop (Suc p) t))))"

text \<open>
  The tokens of a line: the maximal runs of characters that are not white space, from
  left to right.
\<close>

function tokens :: "js_string \<Rightarrow> js_string list" where
  "tokens [] = []"
| "tokens (c # cs) =
     (if is_space c then tokens cs
      else takeWhile (\<lambda>d. \<not> is_space d) (c # cs)
             # tokens (dropWhile (\<lambda>d. \<not> is_space d) cs))"
  by pat_completeness auto

termination tokens
  by (relation "measure length") (simp_all add: less_Suc_eq_le length_dropWhile_le)

text \<open>
  The rule that one line of the ownership file stands for, in the words of the
  specification: none for a blank line, for a line whose first character after the
  indentation is \<^verbatim>\<open>#\<close>, for a line with fewer than two tokens, and for a line none
  of whose tokens after the first begins with \<^verbatim>\<open>@\<close>; otherwise the first token is
  the pattern and the later tokens that begin with \<^verbatim>\<open>@\<close>, without it, are the
  owners.
\<close>

definition rule_of_line :: "js_string \<Rightarrow> rule option" where
  "rule_of_line l =
     (if list_all is_space l then None
      else if take 1 (dropWhile is_space l) = str ''#'' then None
      else if length (tokens l) < 2 then None
      else
        (let os = filter (\<lambda>w. take 1 w = str ''@'') (drop 1 (tokens l)) in
         if os = [] then None
         else Some \<lparr>pattern = hd (tokens l), owners = map (drop 1) os\<rparr>))"

text \<open>Trimming on the right, the second half of \<open>trim\<close>.\<close>

definition rtrim :: "js_string \<Rightarrow> js_string" where
  "rtrim s = rev (dropWhile is_space (rev s))"

text \<open>
  The rule that wins for a file when the rules are listed in the order of the
  ownership file: the last one whose pattern matches.
\<close>

definition last_match :: "rule list \<Rightarrow> js_string \<Rightarrow> rule option" where
  "last_match rules file =
     (let ms = filter (\<lambda>r. matchPattern file (pattern r)) rules in
      if ms = [] then None else Some (last ms))"

text \<open>
  A complete marker with the opening \<open>pre\<close> in a text: somewhere the opening stands
  and is followed, on the same line, by at least one character and then by the closing
  \<^verbatim>\<open> -->\<close>.
\<close>

fun complete_marker :: "js_string \<Rightarrow> js_string \<Rightarrow> bool" where
  "complete_marker pre [] = False"
| "complete_marker pre (c # cs) =
     ((startsWith (c # cs) pre \<and>
       includes_str
         (drop 1 (takeWhile (\<lambda>d. \<not> is_line_terminator d) (drop (length pre) (c # cs))))
         (str '' -->''))
      \<or> complete_marker pre cs)"

text \<open>
  A text that a marker can hold and give back: not empty, on one line, and without the
  closing \<^verbatim>\<open> -->\<close> behind its first character.
\<close>

definition marker_value :: "js_string \<Rightarrow> bool" where
  "marker_value v =
     (v \<noteq> [] \<and> list_all (\<lambda>c. \<not> is_line_terminator c) v \<and>
      \<not> includes_str (drop 1 v) (str '' -->''))"

text \<open>Kinds of requests, to speak about what a run did and did not do.\<close>

fun is_lookup :: "call \<Rightarrow> bool" where
  "is_lookup (Slack_users_lookupByEmail m) = True"
| "is_lookup (GitHub_users_getByUsername u) = True"
| "is_lookup c = False"

fun is_status_write :: "call \<Rightarrow> bool" where
  "is_status_write (Call_updatePRStatus n s) = True"
| "is_status_write c = False"

fun is_post :: "call \<Rightarrow> bool" where
  "is_post (Slack_chat_postMessage ch th m) = True"
| "is_post c = False"

section \<open>A sample installation\<close>

text \<open>
  Concrete data for the examples: pull request 7 by \<open>alice\<close> with reviewers \<open>alice\<close>
  and \<open>bob\<close>, two changed files, an ownership file at the second candidate path, a
  directory that knows five mailboxes, and a thread started at \<open>123.45\<close>. The argument
  is the status that is stored when the event arrives.
\<close>

definition sample_directory :: "js_string \<Rightarrow> js_error + lookup_response" where
  "sample_directory m =
     (if m = str ''alice@co.com'' then Inr \<lparr>lookup_response.ok = True, user = Some (str ''U1'')\<rparr>
      else if m = str ''bob@co.com'' then Inr \<lparr>lookup_response.ok = True, user = Some (str ''U2'')\<rparr>
      else if m = str ''carol@co.com'' then Inr \<lparr>lookup_response.ok = True, user = Some (str ''U3'')\<rparr>
      else if m = str ''dave@co.com'' then Inr \<lparr>lookup_response.ok = True, user = Some (str ''U4'')\<rparr>
      else if m = str ''shared@co.com'' then Inr \<lparr>lookup_response.ok = True, user = Some (str ''U9'')\<rparr>
      else Inl (Error (str ''users_not_found'')))"

definition sample_pr :: "js_string \<Rightarrow> pull_request" where
  "sample_pr status =
     \<lparr>pull_request.number = 7, pull_request.title = str ''Fix'', user_login = str ''alice'',
      pull_request.body = Some (writeMarkers (str ''Fix'') (str ''123.45'') status),
      draft = False, requested_reviewers = [str ''alice'', str ''bob'']\<rparr>"

definition sample_env :: "js_string \<Rightarrow> env" where
  "sample_env status =
     \<lparr>users_lookupByEmail = sample_directory,
      users_getByUsername =
        (\<lambda>u. if u = str ''carol'' then Inr (Some (str ''carol@co.com''))
             else if u = str ''ghost'' then Inl (Error (str ''Not Found''))
             else Inr None),
      pulls_get = (\<lambda>n. if n = 7 then Inr (sample_pr status) else Inl (Error (str ''Not Found''))),
      pulls_listFiles =
        (\<lambda>n. if n = 7 then Inr [str ''src/app.js'', str ''docs/guide.md''] else Inl (Error (str ''Not Found''))),
      repos_getContent =
        (\<lambda>p. if p = str ''CODEOWNERS'' then Inr (Some (str ''KiBAYm9i'')) else Inl (Error (str ''Not Found''))),
      base64_decode = (\<lambda>c. (str ''* @bob'') @ [0x0A] @ str ''docs/ @carol''),
      pulls_update = (\<lambda>n b. Inr ()),
      chat_postMessage = (\<lambda>ch th m. Inr \<lparr>chat_response.ok = True, ts = str ''123.45'', error = []\<rparr>),
      chat_update = (\<lambda>ch t m. Inr \<lparr>chat_response.ok = True, ts = t, error = []\<rparr>),
      getPRStatus = (\<lambda>n. Inr status),
      updatePRStatus = (\<lambda>n s. Inr ())\<rparr>"

definition sample_config :: config where
  "sample_config =
     \<lparr>email_mappings = (\<lambda>u. if u = str ''bob'' then Some (str ''bob@co.com'') else None),
      default_reviewers = [str ''dave@co.com''],
      auto_match_by_email = True\<rparr>"

text \<open>
  A configuration without default reviewers in which two handles share one mailbox.
\<close>

definition shared_mailbox_config :: config where
  "shared_mailbox_config =
     \<lparr>email_mappings =
        (\<lambda>u. if u = str ''bob'' \<or> u = str ''carol'' then Some (str ''shared@co.com'') else None),
      default_reviewers = [],
      auto_match_by_email = True\<rparr>"

text \<open>
  A configuration whose mapping table knows the author of the sample pull request.
\<close>

definition mapped_author_config :: config where
  "mapped_author_config =
     \<lparr>email_mappings =
        (\<lambda>u. if u = str ''alice'' then Some (str ''alice@co.com'')
             else if u = str ''bob'' then Some (str ''bob@co.com'')
             else None),
      default_reviewers = [],
      auto_match_by_email = False\<rparr>"

definition sample_payload :: "js_string list \<Rightarrow> payload" where
  "sample_payload rs =
     \<lparr>pull_request =
        Some \<lparr>pull_request.number = 7, pull_request.title = str ''Fix'', user_login = str ''alice'',
              pull_request.body = Some (str ''Fix''),
              draft = False, requested_reviewers = rs\<rparr>,
      repository =
        Some \<lparr>name = str ''app'', full_name = str ''co/app'', html_url = str ''https://example.org/co/app''\<rparr>\<rparr>"

definition sample_comment :: "js_string \<Rightarrow> js_string option \<Rightarrow> js_string \<Rightarrow> commentData" where
  "sample_comment who state text =
     \<lparr>eventType = (if state = None then str ''issue_comment'' else str ''pull_request_review''),
      prNumber = 7, commentData.author = who, commentData.body = Some text,
      url = str ''https://example.org/co/app/pull/7#c1'', reviewState = state\<rparr>"

chapter \<open>Properties\<close>

section \<open>Sets in insertion order\<close>

lemma Set_add_distinct: "distinct s \<Longrightarrow> distinct (Set_add s x)"
  by (simp add: Set_add_def)

lemma Set_add_set: "set (Set_add s x) = insert x (set s)"
  by (auto simp: Set_add_def)

lemma foldl_Set_add_distinct: "distinct s \<Longrightarrow> distinct (foldl Set_add s xs)"
  by (induction xs arbitrary: s) (simp_all add: Set_add_distinct)

lemma foldl_Set_add_set: "set (foldl Set_add s xs) = set s \<union> set xs"
  by (induction xs arbitrary: s) (auto simp: Set_add_set)

lemma new_Set_distinct: "distinct (new_Set xs)"
  by (simp add: new_Set_def foldl_Set_add_distinct)

lemma new_Set_set: "set (new_Set xs) = set xs"
  by (simp add: new_Set_def foldl_Set_add_set)

lemma new_Set_snoc: "new_Set (xs @ [x]) = Set_add (new_Set xs) x"
  by (simp add: new_Set_def)

text \<open>Order of first appearance: an element that comes earlier in the set has an
  occurrence in the input in front of every occurrence of a later element.\<close>

lemma new_Set_first_appearance:
  "i < j \<Longrightarrow> j < length (new_Set xs) \<Longrightarrow>
     \<exists>k < length xs. xs ! k = new_Set xs ! i \<and> new_Set xs ! j \<notin> set (take (Suc k) xs)"
proof (induction xs arbitrary: i j rule: rev_induct)
  case Nil
  then show ?case by (simp add: new_Set_def)
next
  case (snoc x xs)
  let ?r = "new_Set xs"
  show ?case
  proof (cases "x \<in> set ?r")
    case True
    then have eq: "new_Set (xs @ [x]) = ?r" by (simp add: new_Set_snoc Set_add_def)
    with snoc.prems have "j < length ?r" by simp
    from snoc.IH[OF snoc.prems(1) this] obtain k where
      k: "k < length xs" "xs ! k = ?r ! i" "?r ! j \<notin> set (take (Suc k) xs)" by blast
    then show ?thesis
      by (intro exI[of _ k]) (simp add: eq nth_append)
  next
    case False
    then have eq: "new_Set (xs @ [x]) = ?r @ [x]" by (simp add: new_Set_snoc Set_add_def)
    show ?thesis
    proof (cases "j < length ?r")
      case True
      from snoc.IH[OF snoc.prems(1) this] obtain k where
        k: "k < length xs" "xs ! k = ?r ! i" "?r ! j \<notin> set (take (Suc k) xs)" by blast
      with True snoc.prems(1) show ?thesis
        by (intro exI[of _ k]) (simp add: eq nth_append)
    next
      case False
      with snoc.prems eq have j: "j = length ?r" by simp
      with snoc.prems(1) have i: "i < length ?r" by simp
      then have "?r ! i \<in> set xs" using new_Set_set[of xs] nth_mem by blast
      then obtain k where k: "k < length xs" "xs ! k = ?r ! i" by (auto simp: in_set_conv_nth)
      have "x \<notin> set xs" using \<open>x \<notin> set ?r\<close> by (simp add: new_Set_set)
      then have "x \<notin> set (take (Suc k) xs)" by (meson in_set_takeD)
      with k i j show ?thesis
        by (intro exI[of _ k]) (simp add: eq nth_append)
    qed
  qed
qed

section \<open>Mentions\<close>

lemma greedy_tail_Some:
  "greedy_tail cs = Some n \<Longrightarrow>
     0 < n \<and> n \<le> length cs \<and> (\<forall>c\<in>set (take n cs). is_handle_char c) \<and> is_alnum (cs ! (n - 1))"
proof (induction cs arbitrary: n)
  case Nil
  then show ?case by simp
next
  case (Cons c cs)
  show ?case
  proof (cases "greedy_tail cs")
    case None
    with Cons.prems show ?thesis by (auto split: if_splits)
  next
    case (Some m)
    with Cons.prems have n: "n = Suc m" and c: "is_handle_char c" by (auto split: if_splits)
    from Cons.IH[OF Some] show ?thesis using n c by (cases m) auto
  qed
qed

lemma greedy_tail_longest:
  "0 < k \<Longrightarrow> k \<le> length cs \<Longrightarrow> \<forall>c\<in>set (take k cs). is_handle_char c \<Longrightarrow>
     is_alnum (cs ! (k - 1)) \<Longrightarrow> \<exists>n. greedy_tail cs = Some n \<and> k \<le> n"
proof (induction cs arbitrary: k)
  case Nil
  then show ?case by simp
next
  case (Cons c cs)
  from Cons.prems obtain k' where k: "k = Suc k'" by (cases k) auto
  from Cons.prems k have c: "is_handle_char c" by simp
  show ?case
  proof (cases k')
    case 0
    with Cons.prems k have "is_alnum c" by simp
    with c k 0 show ?thesis by (cases "greedy_tail cs") auto
  next
    case (Suc k'')
    have "\<exists>n. greedy_tail cs = Some n \<and> k' \<le> n"
      using Cons.prems k Suc by (intro Cons.IH) auto
    with c k show ?thesis by auto
  qed
qed

lemma mention_at_Some:
  assumes "mention_at cs = Some h"
  shows "h \<noteq> []" and "is_alnum (hd h)" and "is_alnum (last h)"
    and "\<forall>c\<in>set h. is_handle_char c" and "take (length h) cs = h"
    and "\<forall>k. length h < k \<and> k \<le> length cs \<and> (\<forall>c\<in>set (take k cs). is_handle_char c)
           \<longrightarrow> \<not> is_alnum (cs ! (k - 1))"
proof -
  from assms obtain c rest where cs: "cs = c # rest" and c: "is_alnum c"
    and h: "h = c # (case greedy_tail rest of Some n \<Rightarrow> take n rest | None \<Rightarrow> [])"
    by (auto simp: mention_at_def split: list.splits if_splits)
  show "h \<noteq> []" "is_alnum (hd h)" using h c by simp_all
  show "is_alnum (last h)"
  proof (cases "greedy_tail rest")
    case None
    with h c show ?thesis by simp
  next
    case (Some n)
    from greedy_tail_Some[OF Some] have n: "0 < n" "n \<le> length rest" "is_alnum (rest ! (n - 1))"
      by simp_all
    then have len: "length (take n rest) = n" by simp
    with n have ne: "take n rest \<noteq> []" by auto
    have "last (take n rest) = take n rest ! (n - 1)"
      using ne len by (simp add: last_conv_nth)
    also have "\<dots> = rest ! (n - 1)" using n by simp
    finally have "is_alnum (last (take n rest))" using n by simp
    then show ?thesis using h Some ne by simp
  qed
  show "\<forall>c\<in>set h. is_handle_char c"
    using h c greedy_tail_Some[of rest]
    by (cases "greedy_tail rest") (auto simp: is_handle_char_def)
  show "take (length h) cs = h"
    using h cs greedy_tail_Some[of rest]
    by (cases "greedy_tail rest") (auto simp: min_def)
  show "\<forall>k. length h < k \<and> k \<le> length cs \<and> (\<forall>c\<in>set (take k cs). is_handle_char c)
           \<longrightarrow> \<not> is_alnum (cs ! (k - 1))"
  proof (intro allI impI notI)
    fix k
    assume a: "length h < k \<and> k \<le> length cs \<and> (\<forall>c\<in>set (take k cs). is_handle_char c)"
      and al: "is_alnum (cs ! (k - 1))"
    then obtain k' where k: "k = Suc k'" by (cases k) auto
    from a k h have k'pos: "0 < k'" by (cases k') auto
    have "\<exists>n. greedy_tail rest = Some n \<and> k' \<le> n"
      using a al k k'pos cs by (intro greedy_tail_longest) auto
    then obtain n where n: "greedy_tail rest = Some n" "k' \<le> n" by blast
    from greedy_tail_Some[OF n(1)] have "n \<le> length rest" by simp
    with h n have "length h = Suc n" by simp
    with a k n show False by simp
  qed
qed

lemma matchAll_mentions_mem:
  "(p, h) \<in> set (matchAll_mentions i s) \<Longrightarrow>
     i \<le> p \<and> p - i < length s \<and> s ! (p - i) = unit_of CHR ''@'' \<and>
     mention_at (drop (Suc (p - i)) s) = Some h"
proof (induction i s rule: matchAll_mentions.induct)
  case (1 i)
  then show ?case by simp
next
  case (2 i c cs)
  show ?case
  proof (cases "c = unit_of CHR ''@''")
    case False
    with "2.prems" have "(p, h) \<in> set (matchAll_mentions (Suc i) cs)" by simp
    from "2.IH"(3)[OF False this] show ?thesis
      by (auto simp: Suc_diff_Suc Suc_le_eq)
  next
    case True
    show ?thesis
    proof (cases "mention_at cs")
      case None
      with True "2.prems" have "(p, h) \<in> set (matchAll_mentions (Suc i) cs)" by simp
      from "2.IH"(1)[OF True None this] show ?thesis
        by (auto simp: Suc_diff_Suc Suc_le_eq)
    next
      case (Some g)
      with True "2.prems" consider "p = i" "h = g"
        | "(p, h) \<in> set (matchAll_mentions (i + 1 + length g) (drop (length g) cs))"
        by auto
      then show ?thesis
      proof cases
        case 1
        with True Some show ?thesis by simp
      next
        case 2
        define q where "q = p - (i + 1 + length g)"
        note ih = "2.IH"(2)[OF True Some 2, folded q_def]
        from ih have A: "i + 1 + length g \<le> p" and B: "q < length (drop (length g) cs)"
          and C: "drop (length g) cs ! q = unit_of CHR ''@''"
          and D: "mention_at (drop (Suc q) (drop (length g) cs)) = Some h"
          by blast+
        from A have pi: "p - i = Suc (length g + q)" by (simp add: q_def)
        from B have lt: "length g + q < length cs" by simp
        from C lt have at: "cs ! (length g + q) = unit_of CHR ''@''" by simp
        have "drop (Suc q) (drop (length g) cs) = drop (Suc (length g + q)) cs"
          by (simp add: add.commute)
        with D have "mention_at (drop (Suc (length g + q)) cs) = Some h" by simp
        with A pi lt at show ?thesis by simp
      qed
    qed
  qed
qed

lemma matchAll_mentions_sorted: "sorted_wrt (<) (map fst (matchAll_mentions i s))"
proof (induction i s rule: matchAll_mentions.induct)
  case (1 i)
  then show ?case by simp
next
  case (2 i c cs)
  show ?case
  proof (cases "c = unit_of CHR ''@''")
    case False
    with "2.IH"(3) show ?thesis by simp
  next
    case True
    show ?thesis
    proof (cases "mention_at cs")
      case None
      with True "2.IH"(1) show ?thesis by simp
    next
      case (Some g)
      have "\<forall>q\<in>set (map fst (matchAll_mentions (i + 1 + length g) (drop (length g) cs))). i < q"
        using matchAll_mentions_mem by fastforce
      with True Some "2.IH"(2) show ?thesis by simp
    qed
  qed
qed

text \<open>
  The matcher against the words of the specification: the capture group is the run of
  alphanumerics and hyphens behind the \<^verbatim>\<open>@\<close> without its closing hyphens, and the
  matches are at the indices where an \<^verbatim>\<open>@\<close> stands in front of an alphanumeric.
\<close>

lemma strip_end_Nil_iff: "rev (dropWhile P (rev xs)) = [] \<longleftrightarrow> (\<forall>x\<in>set xs. P x)"
  by (simp add: dropWhile_eq_Nil_conv)

lemma strip_end_Cons:
  "rev (dropWhile P (rev (c # cs))) =
     (if P c \<and> (\<forall>x\<in>set cs. P x) then [] else c # rev (dropWhile P (rev cs)))"
proof (cases "\<forall>x\<in>set cs. P x")
  case True
  then have "dropWhile P (rev cs @ [c]) = dropWhile P [c]"
    by (simp add: dropWhile_append)
  moreover from True have "rev (dropWhile P (rev cs)) = []" by (simp add: strip_end_Nil_iff)
  ultimately show ?thesis using True by simp
next
  case False
  then have "dropWhile P (rev cs @ [c]) = dropWhile P (rev cs) @ [c]"
    by (auto simp: dropWhile_append)
  with False show ?thesis by simp
qed

lemma alnum_handle_char: "is_alnum c \<Longrightarrow> is_handle_char c"
  by (simp add: is_handle_char_def)

lemma alnum_not_hyphen: "is_alnum c \<Longrightarrow> c \<noteq> unit_of CHR ''-''"
  by (auto simp: is_alnum_def)

lemma handle_char_cases: "is_handle_char c \<Longrightarrow> \<not> is_alnum c \<Longrightarrow> c = unit_of CHR ''-''"
  by (simp add: is_handle_char_def)

lemma handle_char_not_at: "is_handle_char c \<Longrightarrow> c \<noteq> unit_of CHR ''@''"
  by (auto simp: is_handle_char_def is_alnum_def)

lemma greedy_tail_run:
  "(case greedy_tail cs of Some n \<Rightarrow> take n cs | None \<Rightarrow> []) =
     rev (dropWhile (\<lambda>d. d = unit_of CHR ''-'') (rev (takeWhile is_handle_char cs)))"
proof (induction cs)
  case Nil
  then show ?case by simp
next
  case (Cons c cs)
  define run where "run = takeWhile is_handle_char cs"
  define hy where "hy = (\<lambda>d::code_unit. d = unit_of CHR ''-'')"
  note ih = Cons.IH[folded run_def hy_def]
  show ?case
  proof (cases "is_handle_char c")
    case False
    then show ?thesis by simp
  next
    case hc: True
    then have tw: "takeWhile is_handle_char (c # cs) = c # run" by (simp add: run_def)
    have goal: "(case greedy_tail (c # cs) of Some n \<Rightarrow> take n (c # cs) | None \<Rightarrow> []) =
        rev (dropWhile hy (rev (c # run)))"
    proof (cases "greedy_tail cs")
      case (Some n)
      from greedy_tail_Some[OF Some] have "0 < n" "n \<le> length cs" by simp_all
      then have "take n cs \<noteq> []" by auto
      with ih Some have "rev (dropWhile hy (rev run)) \<noteq> []" by simp
      then have "\<not> (\<forall>x\<in>set run. hy x)" unfolding strip_end_Nil_iff .
      then have "rev (dropWhile hy (rev (c # run))) = c # rev (dropWhile hy (rev run))"
        by (simp only: strip_end_Cons) simp
      with ih Some hc show ?thesis by simp
    next
      case None
      with ih have e: "rev (dropWhile hy (rev run)) = []" by simp
      then have all: "\<forall>x\<in>set run. hy x" unfolding strip_end_Nil_iff .
      show ?thesis
      proof (cases "is_alnum c")
        case True
        then have "\<not> hy c" unfolding hy_def by (rule alnum_not_hyphen)
        then have "rev (dropWhile hy (rev (c # run))) = c # rev (dropWhile hy (rev run))"
          by (simp only: strip_end_Cons) simp
        with e None hc True show ?thesis by simp
      next
        case False
        with hc have "hy c" unfolding hy_def by (rule handle_char_cases)
        with all have "rev (dropWhile hy (rev (c # run))) = []"
          by (simp only: strip_end_Cons) simp
        with None hc False show ?thesis by simp
      qed
    qed
    then show ?thesis unfolding tw hy_def .
  qed
qed

lemma mention_at_handle:
  "mention_at cs =
     (if cs \<noteq> [] \<and> is_alnum (hd cs)
      then Some (rev (dropWhile (\<lambda>d. d = unit_of CHR ''-'') (rev (takeWhile is_handle_char cs))))
      else None)"
proof (cases cs)
  case Nil
  then show ?thesis by (simp add: mention_at_def)
next
  case (Cons c rest)
  show ?thesis
  proof (cases "is_alnum c")
    case False
    with Cons show ?thesis by (simp add: mention_at_def)
  next
    case True
    define hy where "hy = (\<lambda>d::code_unit. d = unit_of CHR ''-'')"
    from True have hc: "is_handle_char c" by (rule alnum_handle_char)
    from True have "\<not> hy c" unfolding hy_def by (rule alnum_not_hyphen)
    then have "rev (dropWhile hy (rev (c # takeWhile is_handle_char rest)))
        = c # rev (dropWhile hy (rev (takeWhile is_handle_char rest)))"
      by (simp only: strip_end_Cons) simp
    with Cons True hc greedy_tail_run[of rest, folded hy_def] show ?thesis
      by (simp add: mention_at_def hy_def)
  qed
qed

lemma is_mention_start_mention_at:
  "is_mention_start t p \<longleftrightarrow>
     p < length t \<and> t ! p = unit_of CHR ''@'' \<and> mention_at (drop (Suc p) t) \<noteq> None"
proof (cases "Suc p < length t")
  case True
  then have "drop (Suc p) t \<noteq> []" "hd (drop (Suc p) t) = t ! Suc p"
    by (simp_all add: hd_drop_conv_nth)
  with True show ?thesis
    by (auto simp: is_mention_start_def mention_at_handle)
next
  case False
  then have "drop (Suc p) t = []" by simp
  with False show ?thesis by (simp add: is_mention_start_def mention_at_handle)
qed

lemma mention_at_handle_behind:
  "mention_at (drop (Suc p) t) = Some h \<Longrightarrow> h = handle_behind t p"
  by (simp add: mention_at_handle handle_behind_def split: if_splits)

lemma is_mention_start_Cons: "is_mention_start (c # cs) (Suc p) = is_mention_start cs p"
  by (simp add: is_mention_start_def)

lemma handle_behind_Cons: "handle_behind (c # cs) (Suc p) = handle_behind cs p"
  by (simp add: handle_behind_def)

lemma is_mention_start_drop:
  "is_mention_start (drop k s) p = is_mention_start s (k + p)"
  by (auto simp: is_mention_start_def)

lemma handle_behind_drop: "handle_behind (drop k s) p = handle_behind s (k + p)"
  by (simp add: handle_behind_def add.commute)

text \<open>Every match is a mention of the specification, with its token.\<close>

lemma matchAll_mentions_sound:
  assumes "(p, h) \<in> set (matchAll_mentions 0 t)"
  shows "is_mention_start t p \<and> h = handle_behind t p"
proof -
  from matchAll_mentions_mem[OF assms]
  have "p < length t" "t ! p = unit_of CHR ''@''" "mention_at (drop (Suc p) t) = Some h"
    by simp_all
  then show ?thesis
    by (simp add: is_mention_start_mention_at mention_at_handle_behind)
qed

text \<open>Every mention of the specification is matched: the search skips none.\<close>

lemma matchAll_mentions_complete:
  "is_mention_start s p \<Longrightarrow> (i + p, handle_behind s p) \<in> set (matchAll_mentions i s)"
proof (induction i s arbitrary: p rule: matchAll_mentions.induct)
  case (1 i)
  then show ?case by (simp add: is_mention_start_def)
next
  case (2 i c cs)
  show ?case
  proof (cases p)
    case 0
    with "2.prems" have at: "c = unit_of CHR ''@''" and m: "mention_at cs \<noteq> None"
      by (simp_all add: is_mention_start_mention_at)
    then obtain h where h: "mention_at cs = Some h" by auto
    then have "h = handle_behind (c # cs) 0"
      using mention_at_handle_behind[of 0 "c # cs" h] by simp
    with at h 0 show ?thesis by simp
  next
    case (Suc q)
    with "2.prems" have q: "is_mention_start cs q" by (simp add: is_mention_start_Cons)
    show ?thesis
    proof (cases "c = unit_of CHR ''@''")
      case False
      from "2.IH"(3)[OF False q] Suc False show ?thesis
        by (simp add: handle_behind_Cons)
    next
      case True
      show ?thesis
      proof (cases "mention_at cs")
        case None
        from "2.IH"(1)[OF True None q] Suc True None show ?thesis
          by (simp add: handle_behind_Cons)
      next
        case (Some g)
        from mention_at_Some(4,5)[OF Some]
        have g: "\<forall>d\<in>set g. is_handle_char d" "take (length g) cs = g" by simp_all
        have ge: "length g \<le> q"
        proof (rule ccontr)
          assume "\<not> length g \<le> q"
          then have lt: "q < length g" by simp
          from arg_cong[OF g(2), of length] have "length g \<le> length cs" by simp
          with lt have "cs ! q = take (length g) cs ! q" by simp
          also have "\<dots> = g ! q" by (simp only: g(2))
          finally have "cs ! q \<in> set g" using lt by simp
          with g(1) have "is_handle_char (cs ! q)" by blast
          then have "cs ! q \<noteq> unit_of CHR ''@''" by (rule handle_char_not_at)
          with q show False by (simp add: is_mention_start_def)
        qed
        with q have "is_mention_start (drop (length g) cs) (q - length g)"
          by (simp add: is_mention_start_drop)
        from "2.IH"(2)[OF True Some this]
        have "(i + 1 + length g + (q - length g),
               handle_behind (drop (length g) cs) (q - length g))
              \<in> set (matchAll_mentions (i + 1 + length g) (drop (length g) cs))" .
        moreover have "i + 1 + length g + (q - length g) = i + Suc q" using ge by simp
        moreover have "handle_behind (drop (length g) cs) (q - length g) = handle_behind cs q"
          using ge by (simp add: handle_behind_drop)
        ultimately have "(i + Suc q, handle_behind cs q)
              \<in> set (matchAll_mentions (i + 1 + length g) (drop (length g) cs))" by simp
        with True Some Suc show ?thesis by (simp add: handle_behind_Cons)
      qed
    qed
  qed
qed

lemma matchAll_mentions_iff:
  "(p, h) \<in> set (matchAll_mentions 0 t) \<longleftrightarrow> is_mention_start t p \<and> h = handle_behind t p"
  using matchAll_mentions_sound[of p h t] matchAll_mentions_complete[of t p 0] by auto

lemma extractMentions_Some: "extractMentions (Some t) = new_Set (map snd (matchAll_mentions 0 t))"
  by (cases t) (simp_all add: extractMentions_def new_Set_def)

text \<open>
  Claim C8. For every text, \<open>extractMentions\<close> returns each handle once
  (\<open>distinct\<close>). The handles are exactly the tokens behind the mentions of the text:
  behind every \<^verbatim>\<open>@\<close> that stands in front of an alphanumeric, the run of
  alphanumerics and hyphens that follows, without its closing hyphens. They come in the
  order of their first appearance in the text: a handle listed earlier has a mention in
  front of every mention of a handle listed later. Every handle is non-empty, begins and
  ends with an alphanumeric character (so with no hyphen) and consists of alphanumerics
  and hyphens. The token of a mention sits in the text directly behind its \<^verbatim>\<open>@\<close>,
  and it is no part of a longer token: no longer run of alphanumerics and hyphens behind
  that \<^verbatim>\<open>@\<close> ends in an alphanumeric. Without a text the result is empty.
\<close>

theorem extractMentions_handles:
  "extractMentions None = [] \<and>
   distinct (extractMentions (Some t)) \<and>
   set (extractMentions (Some t)) = {handle_behind t p |p. is_mention_start t p} \<and>
   (\<forall>i j. i < j \<and> j < length (extractMentions (Some t)) \<longrightarrow>
      (\<exists>p. is_mention_start t p \<and> handle_behind t p = extractMentions (Some t) ! i \<and>
           (\<forall>q. is_mention_start t q \<and> handle_behind t q = extractMentions (Some t) ! j
                 \<longrightarrow> p < q))) \<and>
   (\<forall>h\<in>set (extractMentions (Some t)).
      h \<noteq> [] \<and> is_alnum (hd h) \<and> is_alnum (last h) \<and>
      hd h \<noteq> unit_of CHR ''-'' \<and> last h \<noteq> unit_of CHR ''-'' \<and>
      (\<forall>c\<in>set h. is_handle_char c)) \<and>
   (\<forall>p. is_mention_start t p \<longrightarrow>
      take (length (handle_behind t p)) (drop (Suc p) t) = handle_behind t p \<and>
      (\<forall>k. length (handle_behind t p) < k \<and> k \<le> length (drop (Suc p) t) \<and>
            (\<forall>c\<in>set (take k (drop (Suc p) t)). is_handle_char c)
            \<longrightarrow> \<not> is_alnum (drop (Suc p) t ! (k - 1))))"
proof -
  let ?ms = "matchAll_mentions 0 t"
  let ?r = "extractMentions (Some t)"
  have r: "?r = new_Set (map snd ?ms)" by (rule extractMentions_Some)
  have at: "mention_at (drop (Suc p) t) = Some (handle_behind t p)"
    if "is_mention_start t p" for p
  proof -
    from that have "mention_at (drop (Suc p) t) \<noteq> None"
      by (simp add: is_mention_start_mention_at)
    then obtain h where h: "mention_at (drop (Suc p) t) = Some h" by auto
    with mention_at_handle_behind[OF h] show ?thesis by simp
  qed
  have c1: "extractMentions None = []" by (simp add: extractMentions_def)
  have c2: "distinct ?r" by (simp add: r new_Set_distinct)
  have c3: "set ?r = {handle_behind t p |p. is_mention_start t p}"
  proof -
    have "set ?r = snd ` set ?ms" by (simp add: r new_Set_set)
    also have "\<dots> = {handle_behind t p |p. is_mention_start t p}"
    proof (intro set_eqI iffI)
      fix h assume "h \<in> snd ` set ?ms"
      then obtain p where "(p, h) \<in> set ?ms" by auto
      then have "is_mention_start t p \<and> h = handle_behind t p"
        by (simp only: matchAll_mentions_iff)
      then show "h \<in> {handle_behind t p |p. is_mention_start t p}" by blast
    next
      fix h assume "h \<in> {handle_behind t p |p. is_mention_start t p}"
      then obtain p where "is_mention_start t p" "h = handle_behind t p" by blast
      then have "(p, h) \<in> set ?ms" by (simp only: matchAll_mentions_iff)
      then show "h \<in> snd ` set ?ms" by force
    qed
    finally show ?thesis .
  qed
  have c4: "\<exists>p. is_mention_start t p \<and> handle_behind t p = ?r ! i \<and>
           (\<forall>q. is_mention_start t q \<and> handle_behind t q = ?r ! j \<longrightarrow> p < q)"
    if ij: "i < j \<and> j < length ?r" for i j
  proof -
    from ij have "i < j" "j < length (new_Set (map snd ?ms))" by (simp_all add: r)
    from new_Set_first_appearance[OF this] obtain k where
      k: "k < length ?ms" "snd (?ms ! k) = ?r ! i" "?r ! j \<notin> set (take (Suc k) (map snd ?ms))"
      by (auto simp: r)
    have mem: "(fst (?ms ! k), ?r ! i) \<in> set ?ms"
      using k(1,2) by (metis nth_mem prod.collapse)
    then have s: "is_mention_start t (fst (?ms ! k))"
      and hb: "handle_behind t (fst (?ms ! k)) = ?r ! i"
      by (simp_all only: matchAll_mentions_iff)
    have "fst (?ms ! k) < q" if q: "is_mention_start t q \<and> handle_behind t q = ?r ! j" for q
    proof -
      from q have "(q, ?r ! j) \<in> set ?ms" by (simp add: matchAll_mentions_iff)
      then obtain k' where k': "k' < length ?ms" "?ms ! k' = (q, ?r ! j)"
        by (auto simp: in_set_conv_nth)
      have "k < k'"
      proof (rule ccontr)
        assume "\<not> k < k'"
        then have "k' < Suc k" by simp
        with k' k(1) have "?r ! j \<in> set (take (Suc k) (map snd ?ms))"
          by (auto simp: in_set_conv_nth intro!: exI[of _ k'])
        with k(3) show False by simp
      qed
      then have "map fst ?ms ! k < map fst ?ms ! k'"
        using matchAll_mentions_sorted[of 0 t] k'(1) by (intro sorted_wrt_nth_less) simp_all
      with k' k(1) show ?thesis by simp
    qed
    with s hb show ?thesis by blast
  qed
  have c5: "h \<noteq> [] \<and> is_alnum (hd h) \<and> is_alnum (last h) \<and>
      hd h \<noteq> unit_of CHR ''-'' \<and> last h \<noteq> unit_of CHR ''-'' \<and> (\<forall>c\<in>set h. is_handle_char c)"
    if "h \<in> set ?r" for h
  proof -
    from that c3 obtain p where "is_mention_start t p" "h = handle_behind t p" by blast
    with at[of p] have m: "mention_at (drop (Suc p) t) = Some h" by simp
    from mention_at_Some(1-4)[OF m] alnum_not_hyphen[of "hd h"] alnum_not_hyphen[of "last h"]
    show ?thesis by blast
  qed
  have c6: "take (length (handle_behind t p)) (drop (Suc p) t) = handle_behind t p \<and>
      (\<forall>k. length (handle_behind t p) < k \<and> k \<le> length (drop (Suc p) t) \<and>
            (\<forall>c\<in>set (take k (drop (Suc p) t)). is_handle_char c)
            \<longrightarrow> \<not> is_alnum (drop (Suc p) t ! (k - 1)))"
    if "is_mention_start t p" for p
    using mention_at_Some(5,6)[OF at[OF that]] by blast
  from c4 have c4': "\<forall>i j. i < j \<and> j < length ?r \<longrightarrow>
      (\<exists>p. is_mention_start t p \<and> handle_behind t p = ?r ! i \<and>
           (\<forall>q. is_mention_start t q \<and> handle_behind t q = ?r ! j \<longrightarrow> p < q))"
    by (intro allI impI)
  from c5 have c5': "\<forall>h\<in>set ?r.
      h \<noteq> [] \<and> is_alnum (hd h) \<and> is_alnum (last h) \<and>
      hd h \<noteq> unit_of CHR ''-'' \<and> last h \<noteq> unit_of CHR ''-'' \<and> (\<forall>c\<in>set h. is_handle_char c)"
    by (intro ballI)
  from c6 have c6': "\<forall>p. is_mention_start t p \<longrightarrow>
      take (length (handle_behind t p)) (drop (Suc p) t) = handle_behind t p \<and>
      (\<forall>k. length (handle_behind t p) < k \<and> k \<le> length (drop (Suc p) t) \<and>
            (\<forall>c\<in>set (take k (drop (Suc p) t)). is_handle_char c)
            \<longrightarrow> \<not> is_alnum (drop (Suc p) t ! (k - 1)))"
    by (intro allI impI)
  show ?thesis
    by (intro conjI) (rule c1, rule c2, rule c3, rule c4', rule c5', rule c6')
qed

theorem extractMentions_handles_witness:
  "extractMentions (Some (str ''cc @bob- and @a, @bob @x-y- @-z''))
     = [str ''bob'', str ''a'', str ''x-y''] \<and>
   filter (is_mention_start (str ''cc @bob- and @a, @bob @x-y- @-z''))
     [0..<length (str ''cc @bob- and @a, @bob @x-y- @-z'')] = [3, 13, 17, 22] \<and>
   map (handle_behind (str ''cc @bob- and @a, @bob @x-y- @-z'')) [3, 13, 17, 22]
     = [str ''bob'', str ''a'', str ''bob'', str ''x-y''] \<and>
   distinct (extractMentions (Some (str ''cc @bob- and @a, @bob @x-y- @-z''))) \<and>
   handle_behind (str ''cc @bob- and @a, @bob @x-y- @-z'') 22
     \<in> set (extractMentions (Some (str ''cc @bob- and @a, @bob @x-y- @-z''))) \<and>
   (\<exists>p. is_mention_start (str ''cc @bob- and @a, @bob @x-y- @-z'') p \<and>
        handle_behind (str ''cc @bob- and @a, @bob @x-y- @-z'') p = str ''bob'' \<and>
        (\<forall>q. is_mention_start (str ''cc @bob- and @a, @bob @x-y- @-z'') q \<and>
             handle_behind (str ''cc @bob- and @a, @bob @x-y- @-z'') q = str ''a''
             \<longrightarrow> p < q)) \<and>
   is_alnum (hd (str ''x-y'')) \<and> is_alnum (last (str ''x-y'')) \<and>
   take (length (handle_behind (str ''cc @bob- and @a, @bob @x-y- @-z'') 22))
     (drop (Suc 22) (str ''cc @bob- and @a, @bob @x-y- @-z''))
     = handle_behind (str ''cc @bob- and @a, @bob @x-y- @-z'') 22 \<and>
   list_all is_handle_char (take 4 (drop (Suc 22) (str ''cc @bob- and @a, @bob @x-y- @-z''))) \<and>
   \<not> is_alnum (drop (Suc 22) (str ''cc @bob- and @a, @bob @x-y- @-z'') ! (4 - 1))"
proof -
  let ?t = "str ''cc @bob- and @a, @bob @x-y- @-z''"
  note T = extractMentions_handles[of ?t]
  have r: "extractMentions (Some ?t) = [str ''bob'', str ''a'', str ''x-y'']"
    by (simp add: extractMentions_def new_Set_def Set_add_def mention_at_def is_alnum_def
          is_handle_char_def)
  have st: "filter (is_mention_start ?t) [0..<length ?t] = [3, 13, 17, 22]"
    by (simp add: is_mention_start_def is_alnum_def)
  have hb: "map (handle_behind ?t) [3, 13, 17, 22] = [str ''bob'', str ''a'', str ''bob'', str ''x-y'']"
    by (simp add: handle_behind_def is_handle_char_def is_alnum_def)
  have s22: "is_mention_start ?t 22" by (simp add: is_mention_start_def is_alnum_def)
  from T[THEN conjunct2, THEN conjunct1] have d: "distinct (extractMentions (Some ?t))" .
  from T[THEN conjunct2, THEN conjunct2, THEN conjunct1]
  have "set (extractMentions (Some ?t)) = {handle_behind ?t p |p. is_mention_start ?t p}" .
  with s22 have m: "handle_behind ?t 22 \<in> set (extractMentions (Some ?t))" by blast
  from T[THEN conjunct2, THEN conjunct2, THEN conjunct2, THEN conjunct1]
  have "\<forall>i j. i < j \<and> j < length (extractMentions (Some ?t)) \<longrightarrow>
      (\<exists>p. is_mention_start ?t p \<and> handle_behind ?t p = extractMentions (Some ?t) ! i \<and>
           (\<forall>q. is_mention_start ?t q \<and> handle_behind ?t q = extractMentions (Some ?t) ! j
                 \<longrightarrow> p < q))" .
  then have "0 < (1::nat) \<and> 1 < length (extractMentions (Some ?t)) \<longrightarrow>
      (\<exists>p. is_mention_start ?t p \<and> handle_behind ?t p = extractMentions (Some ?t) ! 0 \<and>
           (\<forall>q. is_mention_start ?t q \<and> handle_behind ?t q = extractMentions (Some ?t) ! 1
                 \<longrightarrow> p < q))"
    by blast
  then have o: "\<exists>p. is_mention_start ?t p \<and> handle_behind ?t p = str ''bob'' \<and>
        (\<forall>q. is_mention_start ?t q \<and> handle_behind ?t q = str ''a'' \<longrightarrow> p < q)"
    unfolding r by simp
  from T[THEN conjunct2, THEN conjunct2, THEN conjunct2, THEN conjunct2, THEN conjunct1]
  have "\<forall>h\<in>set (extractMentions (Some ?t)). h \<noteq> [] \<and> is_alnum (hd h) \<and> is_alnum (last h) \<and>
      hd h \<noteq> unit_of CHR ''-'' \<and> last h \<noteq> unit_of CHR ''-'' \<and>
      (\<forall>c\<in>set h. is_handle_char c)" .
  then have s: "is_alnum (hd (str ''x-y'')) \<and> is_alnum (last (str ''x-y''))"
    unfolding r by simp
  from T[THEN conjunct2, THEN conjunct2, THEN conjunct2, THEN conjunct2, THEN conjunct2,
      rule_format, OF s22]
  have tk: "take (length (handle_behind ?t 22)) (drop (Suc 22) ?t) = handle_behind ?t 22"
    by (rule conjunct1)
  from s have s1: "is_alnum (hd (str ''x-y''))" and s2: "is_alnum (last (str ''x-y''))"
    by simp_all
  have h22: "length (handle_behind ?t 22) = 3"
    by (simp add: handle_behind_def is_handle_char_def is_alnum_def)
  have run: "list_all is_handle_char (take 4 (drop (Suc 22) ?t))"
    by (simp add: is_handle_char_def is_alnum_def)
  from T[THEN conjunct2, THEN conjunct2, THEN conjunct2, THEN conjunct2, THEN conjunct2,
      rule_format, OF s22]
  have "\<forall>k. length (handle_behind ?t 22) < k \<and> k \<le> length (drop (Suc 22) ?t) \<and>
            (\<forall>c\<in>set (take k (drop (Suc 22) ?t)). is_handle_char c)
            \<longrightarrow> \<not> is_alnum (drop (Suc 22) ?t ! (k - 1))"
    by (rule conjunct2)
  then have "length (handle_behind ?t 22) < 4 \<and> 4 \<le> length (drop (Suc 22) ?t) \<and>
            (\<forall>c\<in>set (take 4 (drop (Suc 22) ?t)). is_handle_char c)
            \<longrightarrow> \<not> is_alnum (drop (Suc 22) ?t ! (4 - 1))"
    by (rule spec)
  moreover have "length (handle_behind ?t 22) < 4 \<and> 4 \<le> length (drop (Suc 22) ?t) \<and>
            (\<forall>c\<in>set (take 4 (drop (Suc 22) ?t)). is_handle_char c)"
    using run unfolding h22 by (simp add: list_all_iff)
  ultimately have mx: "\<not> is_alnum (drop (Suc 22) ?t ! (4 - 1))" by (rule mp)
  show ?thesis
    by (intro conjI) (rule r, rule st, rule hb, rule d, rule m, rule o, rule s1, rule s2, rule tk,
      rule run, rule mx)
qed

section \<open>Strings\<close>

lemma startsWith_iff: "startsWith s p \<longleftrightarrow> (\<exists>r. s = p @ r)"
  by (induction s p rule: startsWith.induct) auto

lemma endsWith_iff: "endsWith s p \<longleftrightarrow> (\<exists>r. s = r @ p)"
proof -
  have "(\<exists>r. rev s = rev p @ r) \<longleftrightarrow> (\<exists>r. s = r @ p)"
  proof
    assume "\<exists>r. rev s = rev p @ r"
    then obtain r where "rev s = rev p @ r" by blast
    then have "s = rev r @ p" by (metis rev_append rev_rev_ident)
    then show "\<exists>r. s = r @ p" by blast
  next
    assume "\<exists>r. s = r @ p"
    then show "\<exists>r. rev s = rev p @ r" by auto
  qed
  then show ?thesis by (simp add: endsWith_def startsWith_iff)
qed

lemma includes_str_iff: "includes_str s p \<longleftrightarrow> (\<exists>u v. s = u @ p @ v)"
proof (induction s)
  case Nil
  then show ?case by auto
next
  case (Cons c cs)
  show ?case
  proof
    assume "includes_str (c # cs) p"
    then consider "startsWith (c # cs) p" | "includes_str cs p" by auto
    then show "\<exists>u v. c # cs = u @ p @ v"
    proof cases
      case 1
      then obtain r where "c # cs = p @ r" by (auto simp: startsWith_iff)
      then have "c # cs = [] @ p @ r" by simp
      then show ?thesis by blast
    next
      case 2
      with Cons.IH obtain u v where "cs = u @ p @ v" by blast
      then have "c # cs = (c # u) @ p @ v" by simp
      then show ?thesis by blast
    qed
  next
    assume "\<exists>u v. c # cs = u @ p @ v"
    then obtain u v where uv: "c # cs = u @ p @ v" by blast
    show "includes_str (c # cs) p"
    proof (cases u)
      case Nil
      with uv have "startsWith (c # cs) p" by (auto simp: startsWith_iff)
      then show ?thesis by simp
    next
      case (Cons a u')
      with uv have "cs = u' @ p @ v" by simp
      with Cons.IH have "includes_str cs p" by blast
      then show ?thesis by simp
    qed
  qed
qed

section \<open>Ownership patterns\<close>

text \<open>
  Claim C5. \<open>matchPattern\<close> decides by the first form that fits the pattern:
  \<^verbatim>\<open>*\<close> matches every file; \<^verbatim>\<open>*.ext\<close> matches exactly the files that end in
  \<^verbatim>\<open>.ext\<close>; otherwise a pattern \<^verbatim>\<open>dir/\<close> matches exactly the files that begin with
  \<^verbatim>\<open>dir/\<close> or with \<^verbatim>\<open>dir\<close>; otherwise a pattern \<^verbatim>\<open>/path\<close> (anchored at the
  root of the repository, whose files are named without a leading slash) matches exactly
  the file \<^verbatim>\<open>path\<close> and the files that begin with \<^verbatim>\<open>path/\<close>; every other pattern
  matches exactly the files that contain it.
\<close>

theorem matchPattern_precedence:
  "(pat = str ''*'' \<longrightarrow> matchPattern file pat) \<and>
   (\<forall>ext. pat = str ''*.'' @ ext \<longrightarrow>
      (matchPattern file pat \<longleftrightarrow> (\<exists>u. file = u @ str ''.'' @ ext))) \<and>
   (\<forall>dir. pat = dir @ str ''/'' \<and> \<not> (\<exists>ext. pat = str ''*.'' @ ext) \<longrightarrow>
      (matchPattern file pat \<longleftrightarrow>
         (\<exists>u. file = dir @ str ''/'' @ u) \<or> (\<exists>u. file = dir @ u))) \<and>
   (\<forall>path. pat = str ''/'' @ path \<and> \<not> (\<exists>dir. pat = dir @ str ''/'') \<longrightarrow>
      (matchPattern file pat \<longleftrightarrow>
         file = path \<or> (\<exists>u. file = path @ str ''/'' @ u))) \<and>
   (pat \<noteq> str ''*'' \<and> \<not> (\<exists>ext. pat = str ''*.'' @ ext) \<and>
    \<not> (\<exists>dir. pat = dir @ str ''/'') \<and> \<not> (\<exists>path. pat = str ''/'' @ path) \<longrightarrow>
      (matchPattern file pat \<longleftrightarrow> (\<exists>u v. file = u @ pat @ v)))"
proof -
  have star: "pat = str ''*'' \<longrightarrow> matchPattern file pat"
    by (simp add: matchPattern_def)
  have ext: "matchPattern file pat \<longleftrightarrow> (\<exists>u. file = u @ str ''.'' @ ext)"
    if "pat = str ''*.'' @ ext" for ext
    using that by (simp add: matchPattern_def endsWith_iff)
  have dir: "matchPattern file pat \<longleftrightarrow>
         (\<exists>u. file = dir @ str ''/'' @ u) \<or> (\<exists>u. file = dir @ u)"
    if "pat = dir @ str ''/'' \<and> \<not> (\<exists>ext. pat = str ''*.'' @ ext)" for dir
  proof -
    from that have p: "pat = dir @ str ''/''" and n: "\<not> startsWith pat (str ''*.'')"
      by (auto simp: startsWith_iff)
    from p have ns: "pat \<noteq> str ''*''" by auto
    from p have e: "endsWith pat (str ''/'')" by (auto simp: endsWith_iff)
    from p have b: "take (length pat - 1) pat = dir" by simp
    show ?thesis
      unfolding matchPattern_def using ns n e b p by (simp add: startsWith_iff)
  qed
  have anchored: "matchPattern file pat \<longleftrightarrow>
         file = path \<or> (\<exists>u. file = path @ str ''/'' @ u)"
    if "pat = str ''/'' @ path \<and> \<not> (\<exists>dir. pat = dir @ str ''/'')" for path
  proof -
    from that have p: "pat = str ''/'' @ path" and e: "\<not> endsWith pat (str ''/'')"
      by (auto simp: endsWith_iff)
    from p have ns: "pat \<noteq> str ''*''" and n: "\<not> startsWith pat (str ''*.'')"
      by (auto simp: startsWith_iff)
    from p have s: "startsWith pat (str ''/'')" by (auto simp: startsWith_iff)
    show ?thesis
      unfolding matchPattern_def using ns n e s p by (simp add: startsWith_iff)
  qed
  have other: "matchPattern file pat \<longleftrightarrow> (\<exists>u v. file = u @ pat @ v)"
    if "pat \<noteq> str ''*'' \<and> \<not> (\<exists>ext. pat = str ''*.'' @ ext) \<and>
        \<not> (\<exists>dir. pat = dir @ str ''/'') \<and> \<not> (\<exists>path. pat = str ''/'' @ path)"
  proof -
    from that have "pat \<noteq> str ''*''" "\<not> startsWith pat (str ''*.'')"
      "\<not> endsWith pat (str ''/'')" "\<not> startsWith pat (str ''/'')"
      by (auto simp: startsWith_iff endsWith_iff)
    then show ?thesis by (simp add: matchPattern_def includes_str_iff)
  qed
  from star ext dir anchored other show ?thesis by blast
qed

theorem matchPattern_precedence_witness:
  "matchPattern (str ''README'') (str ''*'') \<and>
   matchPattern (str ''src/app.js'') (str ''*.js'') \<and> \<not> matchPattern (str ''src/app.jsx'') (str ''*.js'') \<and>
   matchPattern (str ''docs/a.md'') (str ''docs/'') \<and> matchPattern (str ''docs'') (str ''docs/'') \<and>
   \<not> matchPattern (str ''src/docs/a.md'') (str ''docs/'') \<and>
   matchPattern (str ''backend/x.py'') (str ''/backend'') \<and> matchPattern (str ''backend'') (str ''/backend'') \<and>
   \<not> matchPattern (str ''backendx'') (str ''/backend'') \<and> \<not> matchPattern (str ''api/backend/x.py'') (str ''/backend'') \<and>
   matchPattern (str ''lib/util/io.js'') (str ''util'') \<and> \<not> matchPattern (str ''lib/io.js'') (str ''util'')"
proof -
  have star: "matchPattern f (str ''*'')" for f
    using matchPattern_precedence[of "str ''*''" f] by simp
  have ext: "matchPattern f (str ''*.js'') \<longleftrightarrow> endsWith f (str ''.js'')" for f
  proof -
    have "str ''*.js'' = str ''*.'' @ str ''js''" by simp
    with matchPattern_precedence[of "str ''*.js''" f]
    have "matchPattern f (str ''*.js'') \<longleftrightarrow> (\<exists>u. f = u @ str ''.'' @ str ''js'')" by blast
    then show ?thesis by (simp add: endsWith_iff)
  qed
  have dir: "matchPattern f (str ''docs/'') \<longleftrightarrow> startsWith f (str ''docs/'') \<or> startsWith f (str ''docs'')" for f
  proof -
    have p: "str ''docs/'' = str ''docs'' @ str ''/''" by simp
    have n: "\<not> (\<exists>e. (str ''docs/'') = str ''*.'' @ e)" by simp
    from matchPattern_precedence[of "str ''docs/''" f] p n
    have "matchPattern f (str ''docs/'') \<longleftrightarrow>
        (\<exists>u. f = str ''docs'' @ str ''/'' @ u) \<or> (\<exists>u. f = str ''docs'' @ u)" by blast
    then show ?thesis by (simp add: startsWith_iff)
  qed
  have anchored: "matchPattern f (str ''/backend'') \<longleftrightarrow> f = str ''backend'' \<or> startsWith f (str ''backend/'')"
    for f
  proof -
    have p: "str ''/backend'' = str ''/'' @ str ''backend''" by simp
    have "\<not> endsWith (str ''/backend'') (str ''/'')" by (simp add: endsWith_def)
    then have n: "\<not> (\<exists>d. (str ''/backend'') = d @ str ''/'')" unfolding endsWith_iff by blast
    from matchPattern_precedence[of "str ''/backend''" f] p n
    have "matchPattern f (str ''/backend'') \<longleftrightarrow>
        f = str ''backend'' \<or> (\<exists>u. f = str ''backend'' @ str ''/'' @ u)" by blast
    then show ?thesis by (simp add: startsWith_iff)
  qed
  have other: "matchPattern f (str ''util'') \<longleftrightarrow> includes_str f (str ''util'')" for f
  proof -
    have "\<not> startsWith (str ''util'') (str ''*.'')" "\<not> endsWith (str ''util'') (str ''/'')" "\<not> startsWith (str ''util'') (str ''/'')"
      by (simp_all add: endsWith_def)
    then have n: "\<not> (\<exists>e. (str ''util'') = str ''*.'' @ e)" "\<not> (\<exists>d. (str ''util'') = d @ str ''/'')"
      "\<not> (\<exists>q. (str ''util'') = str ''/'' @ q)"
      unfolding startsWith_iff endsWith_iff by blast+
    have ns: "str ''util'' \<noteq> str ''*''" by simp
    from matchPattern_precedence[of "str ''util''" f] ns n
    have "matchPattern f (str ''util'') \<longleftrightarrow> (\<exists>u v. f = u @ str ''util'' @ v)" by blast
    then show ?thesis by (simp only: includes_str_iff)
  qed
  show ?thesis
    unfolding ext dir anchored other
    using star[of "str ''README''"] by (simp add: endsWith_def)
qed

section \<open>Parsing the ownership file\<close>

lemma rtrim_Nil: "rtrim [] = []"
  by (simp add: rtrim_def)

lemma rtrim_Cons:
  "rtrim (c # cs) = (if list_all is_space (c # cs) then [] else c # rtrim cs)"
proof (cases "list_all is_space cs")
  case True
  then have "dropWhile is_space (rev cs @ [c]) = dropWhile is_space [c]"
    by (simp add: dropWhile_append list_all_iff)
  moreover from True have "rtrim cs = []" by (simp add: rtrim_def list_all_iff)
  ultimately show ?thesis using True by (simp add: rtrim_def)
next
  case False
  then have "dropWhile is_space (rev cs @ [c]) = dropWhile is_space (rev cs) @ [c]"
    by (auto simp: dropWhile_append list_all_iff)
  with False show ?thesis by (simp add: rtrim_def)
qed

lemma trim_rtrim: "trim l = rtrim (dropWhile is_space l)"
  by (simp add: trim_def rtrim_def)

lemma trim_Nil_iff: "trim l = [] \<longleftrightarrow> list_all is_space l"
proof -
  have "rtrim s = [] \<longleftrightarrow> list_all is_space s" for s
    by (induction s) (simp_all add: rtrim_Nil rtrim_Cons)
  then have "trim l = [] \<longleftrightarrow> list_all is_space (dropWhile is_space l)"
    by (simp add: trim_rtrim)
  also have "\<dots> \<longleftrightarrow> list_all is_space l"
    by (induction l) simp_all
  finally show ?thesis .
qed

lemma hd_trim:
  assumes "\<not> list_all is_space l"
  shows "take 1 (trim l) = take 1 (dropWhile is_space l)"
proof -
  from assms have "dropWhile is_space l \<noteq> []" by (induction l) (auto split: if_splits)
  then obtain x d where d: "dropWhile is_space l = x # d" by (cases "dropWhile is_space l") auto
  then have "\<not> is_space x" by (metis hd_dropWhile list.distinct(1) list.sel(1))
  with d show ?thesis by (simp add: trim_rtrim rtrim_Cons)
qed

lemma split_ws_not_Nil: "split_ws s \<noteq> []"
  by (induction s) (auto split: list.splits)

lemma split_ws_all_space:
  "s \<noteq> [] \<Longrightarrow> list_all is_space s \<Longrightarrow> split_ws s = [[], []]"
proof (induction s)
  case Nil
  then show ?case by simp
next
  case (Cons c cs)
  then show ?case by (cases cs) auto
qed

lemma split_ws_hd_not_space:
  "\<not> is_space c \<Longrightarrow> hd (split_ws (c # cs)) \<noteq> []"
  using split_ws_not_Nil[of cs] by (auto split: list.splits)

text \<open>Trimming on the right only removes the empty last piece.\<close>

lemma split_ws_rtrim:
  "split_ws (rtrim s) = hd (split_ws s) # filter (\<lambda>w. w \<noteq> []) (tl (split_ws s))"
proof (induction s)
  case Nil
  then show ?case by (simp add: rtrim_Nil)
next
  case (Cons c cs)
  note ih = Cons.IH
  obtain t ts where tts: "split_ws cs = t # ts"
    using split_ws_not_Nil[of cs] by (cases "split_ws cs") auto
  show ?case
  proof (cases "list_all is_space (c # cs)")
    case True
    then have "split_ws (c # cs) = [[], []]" by (intro split_ws_all_space) simp_all
    with True show ?thesis by (simp add: rtrim_Cons)
  next
    case ns: False
    then have r: "rtrim (c # cs) = c # rtrim cs" by (simp add: rtrim_Cons)
    show ?thesis
    proof (cases "is_space c")
      case False
      with ih tts show ?thesis by (simp add: r)
    next
      case True
      with ns obtain d ds where cs: "cs = d # ds" and nsd: "\<not> list_all is_space (d # ds)"
        by (cases cs) auto
      then have rd: "rtrim cs = d # rtrim ds" by (simp add: rtrim_Cons)
      then have hdr: "rtrim cs \<noteq> []" "hd (rtrim cs) = d" by simp_all
      have hdc: "cs \<noteq> []" "hd cs = d" using cs by simp_all
      show ?thesis
      proof (cases "is_space d")
        case sd: True
        have "split_ws (c # rtrim cs) = split_ws (rtrim cs)"
          using True sd hdr by simp
        moreover have "split_ws (c # cs) = split_ws cs"
          using True sd hdc by simp
        ultimately show ?thesis using ih by (simp add: r)
      next
        case sd: False
        have a: "split_ws (c # rtrim cs) = [] # split_ws (rtrim cs)"
          using True sd hdr by simp
        have b: "split_ws (c # cs) = [] # split_ws cs"
          using True sd hdc by simp
        have "t \<noteq> []" using split_ws_hd_not_space[OF sd, of ds] cs tts by simp
        then have "split_ws (rtrim cs) = filter (\<lambda>w. w \<noteq> []) (split_ws cs)"
          using ih tts by simp
        with a b show ?thesis by (simp add: r)
      qed
    qed
  qed
qed

text \<open>
  The pieces of \<^verbatim>\<open>split(/\s+/)\<close> against the tokens of the specification: the first
  piece is the run in front of the first white space, and the non-empty pieces are the
  tokens.
\<close>

lemma split_ws_not_space:
  "\<not> is_space c \<Longrightarrow> split_ws (c # cs) = (c # hd (split_ws cs)) # tl (split_ws cs)"
  using split_ws_not_Nil[of cs] by (cases "split_ws cs") simp_all

lemma split_ws_space_hd: "is_space c \<Longrightarrow> hd (split_ws (c # cs)) = []"
proof (induction cs arbitrary: c)
  case Nil
  then show ?case by simp
next
  case (Cons d ds)
  show ?case
  proof (cases "is_space d")
    case True
    with Cons.prems Cons.IH[OF True] show ?thesis by simp
  next
    case False
    with Cons.prems show ?thesis by simp
  qed
qed

lemma split_ws_first_piece:
  "hd (split_ws cs) = takeWhile (\<lambda>d. \<not> is_space d) cs \<and>
   filter (\<lambda>w. w \<noteq> []) (tl (split_ws cs))
     = filter (\<lambda>w. w \<noteq> []) (split_ws (dropWhile (\<lambda>d. \<not> is_space d) cs))"
proof (induction cs)
  case Nil
  then show ?case by simp
next
  case (Cons d ds)
  show ?case
  proof (cases "is_space d")
    case True
    then have h: "hd (split_ws (d # ds)) = []" by (rule split_ws_space_hd)
    obtain t ts where tts: "split_ws (d # ds) = t # ts"
      using split_ws_not_Nil[of "d # ds"] by (cases "split_ws (d # ds)") auto
    with h have "t = []" by simp
    with tts have "filter (\<lambda>w. w \<noteq> []) (tl (split_ws (d # ds)))
        = filter (\<lambda>w. w \<noteq> []) (split_ws (d # ds))" by simp
    with True h show ?thesis by simp
  next
    case False
    then have "split_ws (d # ds) = (d # hd (split_ws ds)) # tl (split_ws ds)"
      by (rule split_ws_not_space)
    with False Cons.IH show ?thesis by simp
  qed
qed

lemma tokens_split_ws: "tokens l = filter (\<lambda>w. w \<noteq> []) (split_ws l)"
proof (induction l rule: tokens.induct)
  case 1
  then show ?case by simp
next
  case (2 c cs)
  show ?case
  proof (cases "is_space c")
    case True
    with "2.IH"(1) show ?thesis by simp
  next
    case False
    then have "split_ws (c # cs) = (c # hd (split_ws cs)) # tl (split_ws cs)"
      by (rule split_ws_not_space)
    then have "filter (\<lambda>w. w \<noteq> []) (split_ws (c # cs))
        = (c # takeWhile (\<lambda>d. \<not> is_space d) cs)
            # filter (\<lambda>w. w \<noteq> []) (split_ws (dropWhile (\<lambda>d. \<not> is_space d) cs))"
      using split_ws_first_piece[of cs] by simp
    with False "2.IH"(2) show ?thesis by simp
  qed
qed

lemma tokens_dropWhile: "tokens (dropWhile is_space l) = tokens l"
  by (induction l) simp_all

lemma split_ws_trim:
  assumes "\<not> list_all is_space l"
  shows "split_ws (trim l) = tokens l"
proof -
  from assms have "dropWhile is_space l \<noteq> []" by (induction l) (auto split: if_splits)
  then obtain x d where d: "dropWhile is_space l = x # d" by (cases "dropWhile is_space l") auto
  then have nx: "\<not> is_space x" by (metis hd_dropWhile list.distinct(1) list.sel(1))
  obtain t ts where tts: "split_ws (x # d) = t # ts"
    using split_ws_not_Nil[of "x # d"] by (cases "split_ws (x # d)") auto
  with split_ws_hd_not_space[OF nx, of d] have "t \<noteq> []" by simp
  have "split_ws (trim l) = split_ws (rtrim (x # d))" by (simp add: trim_rtrim d)
  also have "\<dots> = t # filter (\<lambda>w. w \<noteq> []) ts" unfolding split_ws_rtrim tts by simp
  also have "\<dots> = tokens (x # d)" unfolding tokens_split_ws tts using \<open>t \<noteq> []\<close> by simp
  also have "\<dots> = tokens l" using tokens_dropWhile[of l] d by simp
  finally show ?thesis .
qed

lemma startsWith_single: "startsWith w [c] \<longleftrightarrow> take 1 w = [c]"
  by (cases w) auto

lemma parse_line_rule_of_line:
  "parse_line rules l = rules @ (case rule_of_line l of None \<Rightarrow> [] | Some r \<Rightarrow> [r])"
proof (cases "list_all is_space l")
  case True
  then show ?thesis by (simp add: parse_line_def rule_of_line_def trim_Nil_iff)
next
  case False
  then have t: "trim l \<noteq> []" by (simp add: trim_Nil_iff)
  have s: "split_ws (trim l) = tokens l" by (rule split_ws_trim[OF False])
  have h: "take (Suc 0) (trim l) = take (Suc 0) (dropWhile is_space l)"
    using hd_trim[OF False] by simp
  show ?thesis
    using False t
    by (simp add: parse_line_def rule_of_line_def s h startsWith_single Let_def)
qed

lemma foldl_parse_line:
  "foldl parse_line rules ls = rules @ List.map_filter rule_of_line ls"
proof (induction ls arbitrary: rules)
  case Nil
  then show ?case by simp
next
  case (Cons l ls)
  then show ?case
    by (cases "rule_of_line l") (simp_all add: parse_line_rule_of_line)
qed

lemma split_ws_no_space: "\<forall>w\<in>set (split_ws s). \<forall>c\<in>set w. \<not> is_space c"
proof (induction s)
  case Nil
  then show ?case by simp
next
  case (Cons c cs)
  obtain t ts where tts: "split_ws cs = t # ts"
    using split_ws_not_Nil[of cs] by (cases "split_ws cs") auto
  with Cons.IH show ?case by auto
qed

lemma tokens_shape: "\<forall>w\<in>set (tokens l). w \<noteq> [] \<and> (\<forall>c\<in>set w. \<not> is_space c)"
  using split_ws_no_space[of l] by (auto simp: tokens_split_ws)

text \<open>
  Claim C10. One turn of the loop of \<open>parseCodeowners\<close> leaves the rules as they are
  for a blank line, for a line whose first visible character is \<^verbatim>\<open>#\<close>, for a line
  with fewer than two tokens, and for a line none of whose tokens after the first begins
  with \<^verbatim>\<open>@\<close>; for any other line it appends one rule, with the first token as
  pattern and, as owners, the later tokens that begin with \<^verbatim>\<open>@\<close>, without the
  \<^verbatim>\<open>@\<close>. The tokens are the maximal runs of characters that are not white space,
  with white space as \<^verbatim>\<open>trim()\<close> and \<^verbatim>\<open>\s\<close> take it (a no-break space and a
  byte-order mark included); they are the parts into which the code splits the trimmed
  line. So the result is, last line first, the rules of the lines that
  \<open>rule_of_line\<close> keeps, and every rule in it has an owner.
\<close>

theorem parseCodeowners_lines:
  "(\<forall>rules l.
      parse_line rules l =
        (if list_all is_space l \<or> take 1 (dropWhile is_space l) = str ''#'' \<or>
            length (tokens l) < 2 \<or>
            filter (\<lambda>w. take 1 w = str ''@'') (drop 1 (tokens l)) = []
         then rules
         else rules @ [\<lparr>pattern = hd (tokens l),
                         owners = map (drop 1)
                           (filter (\<lambda>w. take 1 w = str ''@'') (drop 1 (tokens l)))\<rparr>])) \<and>
   (\<forall>l. \<forall>w\<in>set (tokens l). w \<noteq> [] \<and> (\<forall>c\<in>set w. \<not> is_space c)) \<and>
   parseCodeowners content
     = rev (List.map_filter rule_of_line (split_char 0x0A content)) \<and>
   (\<forall>r\<in>set (parseCodeowners content).
      owners r \<noteq> [] \<and>
      (\<exists>l\<in>set (split_char 0x0A content).
         \<not> list_all is_space l \<and> take 1 (dropWhile is_space l) \<noteq> str ''#'' \<and>
         2 \<le> length (tokens l) \<and> pattern r = hd (tokens l) \<and>
         owners r = map (drop 1) (filter (\<lambda>w. take 1 w = str ''@'') (drop 1 (tokens l))))) \<and>
   (\<forall>l. \<not> list_all is_space l \<longrightarrow> split_ws (trim l) = tokens l)"
proof -
  have turn: "\<forall>rules l.
      parse_line rules l =
        (if list_all is_space l \<or> take 1 (dropWhile is_space l) = str ''#'' \<or>
            length (tokens l) < 2 \<or>
            filter (\<lambda>w. take 1 w = str ''@'') (drop 1 (tokens l)) = []
         then rules
         else rules @ [\<lparr>pattern = hd (tokens l),
                         owners = map (drop 1)
                           (filter (\<lambda>w. take 1 w = str ''@'') (drop 1 (tokens l)))\<rparr>])"
    by (simp add: parse_line_rule_of_line rule_of_line_def Let_def)
  have tok: "\<forall>l. \<forall>w\<in>set (tokens l). w \<noteq> [] \<and> (\<forall>c\<in>set w. \<not> is_space c)"
    using tokens_shape by blast
  have eq: "parseCodeowners content
     = rev (List.map_filter rule_of_line (split_char 0x0A content))"
    by (simp add: parseCodeowners_def foldl_parse_line)
  have "owners r \<noteq> [] \<and>
      (\<exists>l\<in>set (split_char 0x0A content).
         \<not> list_all is_space l \<and> take 1 (dropWhile is_space l) \<noteq> str ''#'' \<and>
         2 \<le> length (tokens l) \<and> pattern r = hd (tokens l) \<and>
         owners r = map (drop 1) (filter (\<lambda>w. take 1 w = str ''@'') (drop 1 (tokens l))))"
    if "r \<in> set (parseCodeowners content)" for r
  proof -
    from that eq obtain l where l: "l \<in> set (split_char 0x0A content)"
      and r: "rule_of_line l = Some r"
      by (auto simp: List.map_filter_def)
    from r have "owners r \<noteq> [] \<and> \<not> list_all is_space l \<and>
         take 1 (dropWhile is_space l) \<noteq> str ''#'' \<and>
         2 \<le> length (tokens l) \<and> pattern r = hd (tokens l) \<and>
         owners r = map (drop 1) (filter (\<lambda>w. take 1 w = str ''@'') (drop 1 (tokens l)))"
      by (auto simp: rule_of_line_def Let_def split: if_splits)
    with l show ?thesis by blast
  qed
  then have mem: "\<forall>r\<in>set (parseCodeowners content).
      owners r \<noteq> [] \<and>
      (\<exists>l\<in>set (split_char 0x0A content).
         \<not> list_all is_space l \<and> take 1 (dropWhile is_space l) \<noteq> str ''#'' \<and>
         2 \<le> length (tokens l) \<and> pattern r = hd (tokens l) \<and>
         owners r = map (drop 1) (filter (\<lambda>w. take 1 w = str ''@'') (drop 1 (tokens l))))"
    by blast
  have parts: "\<forall>l. \<not> list_all is_space l \<longrightarrow> split_ws (trim l) = tokens l"
    using split_ws_trim by blast
  show ?thesis
    by (intro conjI) (rule turn, rule tok, rule eq, rule mem, rule parts)
qed

theorem parseCodeowners_lines_witness:
  "parseCodeowners
     (str ''# owners'' @ [0x0A] @ str ''*  @alice @bob'' @ [0x0A] @ [0x0A] @
      str ''  *.js @carol dave@x.io @org/team'' @ [0x0A] @ str ''docs/'' @ [0x0A] @
      str ''/api/ erin@x.io'' @ [0x0A] @ str ''  # @zed'')
   = [\<lparr>pattern = str ''*.js'', owners = [str ''carol'', str ''org/team'']\<rparr>,
      \<lparr>pattern = str ''*'', owners = [str ''alice'', str ''bob'']\<rparr>] \<and>
   tokens (str ''  *.js @carol dave@x.io @org/team'')
     = [str ''*.js'', str ''@carol'', str ''dave@x.io'', str ''@org/team''] \<and>
   parse_line [] (str ''  *.js @carol dave@x.io @org/team'')
     = [\<lparr>pattern = str ''*.js'', owners = [str ''carol'', str ''org/team'']\<rparr>] \<and>
   parse_line [] (str ''   '') = [] \<and> parse_line [] (str ''  # @zed'') = [] \<and>
   parse_line [] (str ''docs/'') = [] \<and> parse_line [] (str ''/api/ erin@x.io'') = [] \<and>
   parseCodeowners ([0xFEFF] @ str ''# owners'' @ [0x0A] @ str ''*'' @ [0xA0] @ str ''@alice'')
     = [\<lparr>pattern = str ''*'', owners = [str ''alice'']\<rparr>] \<and>
   tokens (str ''*'' @ [0xA0] @ str ''@alice'' @ [0x3000]) = [str ''*'', str ''@alice''] \<and>
   list_all (\<lambda>c. \<not> is_space c) (str ''dave@x.io'') \<and>
   owners \<lparr>pattern = str ''*.js'', owners = [str ''carol'', str ''org/team'']\<rparr> \<noteq> [] \<and>
   split_ws (trim (str ''  *.js @carol dave@x.io @org/team''))
     = [str ''*.js'', str ''@carol'', str ''dave@x.io'', str ''@org/team'']"
proof -
  let ?c = "str ''# owners'' @ [0x0A] @ str ''*  @alice @bob'' @ [0x0A] @ [0x0A] @
      str ''  *.js @carol dave@x.io @org/team'' @ [0x0A] @ str ''docs/'' @ [0x0A] @
      str ''/api/ erin@x.io'' @ [0x0A] @ str ''  # @zed''"
  let ?n = "[0xFEFF] @ str ''# owners'' @ [0x0A] @ str ''*'' @ [0xA0] @ str ''@alice''"
  from parseCodeowners_lines[of ?c, THEN conjunct2, THEN conjunct2, THEN conjunct1]
  have "parseCodeowners ?c = rev (List.map_filter rule_of_line (split_char 0x0A ?c))" .
  also have "\<dots> = [\<lparr>pattern = str ''*.js'', owners = [str ''carol'', str ''org/team'']\<rparr>,
      \<lparr>pattern = str ''*'', owners = [str ''alice'', str ''bob'']\<rparr>]"
    by (simp add: rule_of_line_def is_space_def)
  finally have all: "parseCodeowners ?c
      = [\<lparr>pattern = str ''*.js'', owners = [str ''carol'', str ''org/team'']\<rparr>,
         \<lparr>pattern = str ''*'', owners = [str ''alice'', str ''bob'']\<rparr>]" .
  from parseCodeowners_lines[of ?n, THEN conjunct2, THEN conjunct2, THEN conjunct1]
  have "parseCodeowners ?n = rev (List.map_filter rule_of_line (split_char 0x0A ?n))" .
  also have "\<dots> = [\<lparr>pattern = str ''*'', owners = [str ''alice'']\<rparr>]"
    by (simp add: rule_of_line_def is_space_def)
  finally have wide: "parseCodeowners ?n = [\<lparr>pattern = str ''*'', owners = [str ''alice'']\<rparr>]" .
  note turn = parseCodeowners_lines[of ?c, THEN conjunct1, rule_format]
  have tk: "tokens (str ''  *.js @carol dave@x.io @org/team'')
      = [str ''*.js'', str ''@carol'', str ''dave@x.io'', str ''@org/team'']"
    by (simp add: is_space_def)
  have tw: "tokens (str ''*'' @ [0xA0] @ str ''@alice'' @ [0x3000]) = [str ''*'', str ''@alice'']"
    by (simp add: is_space_def)
  have t1: "parse_line [] (str ''  *.js @carol dave@x.io @org/team'')
     = [\<lparr>pattern = str ''*.js'', owners = [str ''carol'', str ''org/team'']\<rparr>]"
    unfolding turn tk by (simp add: is_space_def)
  have t2: "parse_line [] (str ''   '') = []"
    unfolding turn by (simp add: is_space_def)
  have t3: "parse_line [] (str ''  # @zed'') = []"
    unfolding turn by (simp add: is_space_def)
  have t4: "parse_line [] (str ''docs/'') = []"
    unfolding turn by (simp add: is_space_def)
  have t5: "parse_line [] (str ''/api/ erin@x.io'') = []"
    unfolding turn by (simp add: is_space_def)
  let ?l = "str ''  *.js @carol dave@x.io @org/team''"
  from parseCodeowners_lines[of ?c, THEN conjunct2, THEN conjunct1, rule_format, of "str ''dave@x.io''" ?l]
  have "str ''dave@x.io'' \<noteq> [] \<and> (\<forall>c\<in>set (str ''dave@x.io''). \<not> is_space c)"
    unfolding tk by simp
  then have sh: "list_all (\<lambda>c. \<not> is_space c) (str ''dave@x.io'')"
    unfolding list_all_iff by (rule conjunct2)
  let ?r = "\<lparr>pattern = str ''*.js'', owners = [str ''carol'', str ''org/team'']\<rparr>"
  have "?r \<in> set (parseCodeowners ?c)" unfolding all by simp
  with parseCodeowners_lines[of ?c, THEN conjunct2, THEN conjunct2, THEN conjunct2, THEN conjunct1]
  have ow: "owners ?r \<noteq> []" by blast
  have ns: "\<not> list_all is_space ?l" by (simp add: is_space_def)
  from parseCodeowners_lines[of ?c, THEN conjunct2, THEN conjunct2, THEN conjunct2, THEN conjunct2,
      rule_format, OF ns]
  have sp: "split_ws (trim ?l) = [str ''*.js'', str ''@carol'', str ''dave@x.io'', str ''@org/team'']"
    unfolding tk .
  show ?thesis
    by (intro conjI) (rule all, rule tk, rule t1, rule t2, rule t3, rule t4, rule t5,
      rule wide, rule tw, rule sh, rule ow, rule sp)
qed

section \<open>Identity mapping\<close>

lemma emailToSlackId_calls: "snd (emailToSlackId e m) = [Slack_users_lookupByEmail m]"
  by (simp add: emailToSlackId_def)

lemma emailToSlackId_throws:
  "users_lookupByEmail e m = Inl err \<Longrightarrow> fst (emailToSlackId e m) = None"
  by (simp add: emailToSlackId_def)

lemma emailToSlackId_Some:
  "fst (emailToSlackId e m) = Some s \<longleftrightarrow>
     (\<exists>r. users_lookupByEmail e m = Inr r \<and> lookup_response.ok r \<and> user r = Some s)"
  by (auto simp: emailToSlackId_def split: sum.splits)

lemma table_step_Some:
  "fst (table_step e u cfg) = Some s \<longleftrightarrow>
     (\<exists>m r. email_mappings cfg u = Some m \<and> m \<noteq> [] \<and>
            users_lookupByEmail e m = Inr r \<and> lookup_response.ok r \<and> user r = Some s \<and> s \<noteq> [])"
proof (cases "email_mappings cfg u")
  case None
  then show ?thesis by (simp add: table_step_def)
next
  case (Some m)
  obtain x t where x: "emailToSlackId e m = (x, t)" by (cases "emailToSlackId e m")
  then have "fst (emailToSlackId e m) = x" by simp
  with emailToSlackId_Some[of e m s]
  have k: "x = Some s \<longleftrightarrow>
     (\<exists>r. users_lookupByEmail e m = Inr r \<and> lookup_response.ok r \<and> user r = Some s)" by simp
  show ?thesis
    using Some x k by (cases x) (auto simp: table_step_def)
qed

lemma auto_step_Some:
  "fst (auto_step e u) = Some s \<longleftrightarrow>
     (\<exists>g r. users_getByUsername e u = Inr (Some g) \<and> g \<noteq> [] \<and>
            users_lookupByEmail e g = Inr r \<and> lookup_response.ok r \<and> user r = Some s \<and> s \<noteq> [])"
proof (cases "users_getByUsername e u")
  case (Inl err)
  then show ?thesis by (simp add: auto_step_def getGitHubUserEmail_def)
next
  case (Inr em)
  show ?thesis
  proof (cases em)
    case None
    with Inr show ?thesis by (simp add: auto_step_def getGitHubUserEmail_def)
  next
    case (Some g)
    obtain x t where x: "emailToSlackId e g = (x, t)" by (cases "emailToSlackId e g")
    then have "fst (emailToSlackId e g) = x" by simp
    with emailToSlackId_Some[of e g s]
    have k: "x = Some s \<longleftrightarrow>
       (\<exists>r. users_lookupByEmail e g = Inr r \<and> lookup_response.ok r \<and> user r = Some s)" by simp
    show ?thesis
      using Inr Some x k by (cases x) (auto simp: auto_step_def getGitHubUserEmail_def)
  qed
qed

lemma table_step_calls:
  "snd (table_step e u cfg) =
     (case email_mappings cfg u of
        Some m \<Rightarrow> if m \<noteq> [] then [Slack_users_lookupByEmail m] else []
      | None \<Rightarrow> [])"
  by (auto simp: table_step_def emailToSlackId_def split: option.splits)

lemma auto_step_calls:
  "snd (auto_step e u) =
     GitHub_users_getByUsername u #
     (case users_getByUsername e u of
        Inr (Some g) \<Rightarrow> if g \<noteq> [] then [Slack_users_lookupByEmail g] else []
      | _ \<Rightarrow> [])"
  by (auto simp: auto_step_def getGitHubUserEmail_def emailToSlackId_def
           split: option.splits sum.splits)

lemma mapGitHubUserToSlack_result:
  "fst (mapGitHubUserToSlack e u cfg) =
     (case fst (table_step e u cfg) of
        Some s \<Rightarrow> Some s
      | None \<Rightarrow> if auto_match_by_email cfg then fst (auto_step e u) else None)"
  by (auto simp: mapGitHubUserToSlack_def split: prod.splits option.splits)

lemma mapGitHubUserToSlack_calls:
  "snd (mapGitHubUserToSlack e u cfg) =
     snd (table_step e u cfg) @
     (if fst (table_step e u cfg) = None \<and> auto_match_by_email cfg
      then snd (auto_step e u) else [])"
  by (auto simp: mapGitHubUserToSlack_def split: prod.splits option.splits)

lemma mapGitHubUserToSlack_not_empty:
  "fst (mapGitHubUserToSlack e u cfg) \<noteq> Some []"
proof
  assume a: "fst (mapGitHubUserToSlack e u cfg) = Some []"
  have "fst (table_step e u cfg) \<noteq> Some []" using table_step_Some[of e u cfg "[]"] by simp
  moreover have "fst (auto_step e u) \<noteq> Some []" using auto_step_Some[of e u "[]"] by simp
  ultimately show False
    using a by (auto simp: mapGitHubUserToSlack_result split: option.splits if_splits)
qed

lemma mapGitHubUsersToSlack_result:
  "fst (mapGitHubUsersToSlack e us cfg)
     = List.map_filter (\<lambda>u. fst (mapGitHubUserToSlack e u cfg)) us"
proof (induction us)
  case Nil
  then show ?case by simp
next
  case (Cons u us)
  obtain x t where x: "mapGitHubUserToSlack e u cfg = (x, t)"
    by (cases "mapGitHubUserToSlack e u cfg")
  obtain ys t' where ys: "mapGitHubUsersToSlack e us cfg = (ys, t')"
    by (cases "mapGitHubUsersToSlack e us cfg")
  from x mapGitHubUserToSlack_not_empty[of e u cfg] have "x \<noteq> Some []" by simp
  with Cons.IH x ys show ?case by (cases x) auto
qed

lemma mapGitHubUsersToSlack_calls:
  "snd (mapGitHubUsersToSlack e us cfg)
     = concat (map (\<lambda>u. snd (mapGitHubUserToSlack e u cfg)) us)"
proof (induction us)
  case Nil
  then show ?case by simp
next
  case (Cons u us)
  then show ?case by (simp add: split_beta)
qed

text \<open>
  Claim C6. Resolving one handle: the result is what the table step finds and, only when
  that finds nothing and automatic matching is on, what the public-email step finds;
  otherwise nothing. The table step succeeds exactly when the table gives a mailbox that
  the directory knows, the public-email step exactly when GitHub shows a mailbox that the
  directory knows. The public email is requested exactly when automatic matching is on
  and the table step found nothing, and after the table's lookup. The batch gives the ids
  of the handles that resolve, in the order of the handles, with no place kept for the
  others, and makes the requests of each handle in turn. A lookup that throws counts as a
  miss; no error leaves either function.
\<close>

theorem mapGitHubUsersToSlack_resolution:
  "fst (mapGitHubUserToSlack e u cfg) =
     (case fst (table_step e u cfg) of
        Some s \<Rightarrow> Some s
      | None \<Rightarrow> if auto_match_by_email cfg then fst (auto_step e u) else None) \<and>
   (\<forall>s. fst (table_step e u cfg) = Some s \<longleftrightarrow>
      (\<exists>m r. email_mappings cfg u = Some m \<and> m \<noteq> [] \<and> users_lookupByEmail e m = Inr r \<and>
             lookup_response.ok r \<and> user r = Some s \<and> s \<noteq> [])) \<and>
   (\<forall>s. fst (auto_step e u) = Some s \<longleftrightarrow>
      (\<exists>g r. users_getByUsername e u = Inr (Some g) \<and> g \<noteq> [] \<and> users_lookupByEmail e g = Inr r \<and>
             lookup_response.ok r \<and> user r = Some s \<and> s \<noteq> [])) \<and>
   (GitHub_users_getByUsername u \<in> set (snd (mapGitHubUserToSlack e u cfg)) \<longleftrightarrow>
      auto_match_by_email cfg \<and> fst (table_step e u cfg) = None) \<and>
   snd (mapGitHubUserToSlack e u cfg) =
     snd (table_step e u cfg) @
     (if fst (table_step e u cfg) = None \<and> auto_match_by_email cfg
      then snd (auto_step e u) else []) \<and>
   fst (mapGitHubUsersToSlack e us cfg)
     = List.map_filter (\<lambda>v. fst (mapGitHubUserToSlack e v cfg)) us \<and>
   snd (mapGitHubUsersToSlack e us cfg)
     = concat (map (\<lambda>v. snd (mapGitHubUserToSlack e v cfg)) us) \<and>
   (\<forall>m err. users_lookupByEmail e m = Inl err \<longrightarrow> fst (emailToSlackId e m) = None) \<and>
   (\<forall>err. users_getByUsername e u = Inl err \<longrightarrow> fst (auto_step e u) = None)"
proof -
  have asked: "GitHub_users_getByUsername u \<in> set (snd (mapGitHubUserToSlack e u cfg)) \<longleftrightarrow>
      auto_match_by_email cfg \<and> fst (table_step e u cfg) = None"
  proof -
    have "GitHub_users_getByUsername u \<notin> set (snd (table_step e u cfg))"
      by (simp add: table_step_calls split: option.splits)
    moreover have "GitHub_users_getByUsername u \<in> set (snd (auto_step e u))"
      by (simp add: auto_step_calls)
    ultimately show ?thesis by (auto simp: mapGitHubUserToSlack_calls)
  qed
  have thrown: "fst (auto_step e u) = None" if "users_getByUsername e u = Inl err" for err
    using that by (simp add: auto_step_def getGitHubUserEmail_def)
  show ?thesis
    using mapGitHubUserToSlack_result[of e u cfg] table_step_Some[of e u cfg]
      auto_step_Some[of e u] asked mapGitHubUserToSlack_calls[of e u cfg]
      mapGitHubUsersToSlack_result[of e us cfg] mapGitHubUsersToSlack_calls[of e us cfg]
      emailToSlackId_throws[of e] thrown
    by blast
qed

theorem mapGitHubUsersToSlack_resolution_witness:
  "fst (mapGitHubUsersToSlack (sample_env (str ''in-review'')) [str ''bob'', str ''ghost'', str ''carol''] sample_config)
     = [str ''U2'', str ''U3''] \<and>
   GitHub_users_getByUsername (str ''bob'')
     \<notin> set (snd (mapGitHubUserToSlack (sample_env (str ''in-review'')) (str ''bob'') sample_config)) \<and>
   GitHub_users_getByUsername (str ''carol'')
     \<in> set (snd (mapGitHubUserToSlack (sample_env (str ''in-review'')) (str ''carol'') sample_config)) \<and>
   users_getByUsername (sample_env (str ''in-review'')) (str ''ghost'') = Inl (Error (str ''Not Found'')) \<and>
   fst (auto_step (sample_env (str ''in-review'')) (str ''ghost'')) = None \<and>
   users_lookupByEmail (sample_env (str ''in-review'')) (str ''nobody@co.com'') = Inl (Error (str ''users_not_found'')) \<and>
   fst (emailToSlackId (sample_env (str ''in-review'')) (str ''nobody@co.com'')) = None"
proof -
  let ?e = "sample_env (str ''in-review'')"
  have tb: "fst (table_step ?e (str ''bob'') sample_config) = Some (str ''U2'')"
    by (simp add: table_step_def emailToSlackId_def sample_env_def sample_config_def
          sample_directory_def)
  have tc: "fst (table_step ?e (str ''carol'') sample_config) = None"
    by (simp add: table_step_def sample_config_def)
  have tg: "fst (table_step ?e (str ''ghost'') sample_config) = None"
    by (simp add: table_step_def sample_config_def)
  have ac: "fst (auto_step ?e (str ''carol'')) = Some (str ''U3'')"
    by (simp add: auto_step_def getGitHubUserEmail_def emailToSlackId_def sample_env_def
          sample_directory_def)
  have g: "users_getByUsername ?e (str ''ghost'') = Inl (Error (str ''Not Found''))"
    by (simp add: sample_env_def)
  have am: "auto_match_by_email sample_config" by (simp add: sample_config_def)
  note B = mapGitHubUsersToSlack_resolution[of ?e "str ''bob''" sample_config "[str ''bob'', str ''ghost'', str ''carol'']"]
  note C = mapGitHubUsersToSlack_resolution[of ?e "str ''carol''" sample_config "[]"]
  note G = mapGitHubUsersToSlack_resolution[of ?e "str ''ghost''" sample_config "[]"]
  from G g have ag: "fst (auto_step ?e (str ''ghost'')) = None" by blast
  have res: "fst (mapGitHubUserToSlack ?e v sample_config) =
     (case fst (table_step ?e v sample_config) of
        Some s \<Rightarrow> Some s
      | None \<Rightarrow> if auto_match_by_email sample_config then fst (auto_step ?e v) else None)"
    for v
    using mapGitHubUsersToSlack_resolution[of ?e v sample_config "[]"] by blast
  have rb: "fst (mapGitHubUserToSlack ?e (str ''bob'') sample_config) = Some (str ''U2'')"
    unfolding res tb by simp
  have rc: "fst (mapGitHubUserToSlack ?e (str ''carol'') sample_config) = Some (str ''U3'')"
    unfolding res tc ac using am by simp
  have rg: "fst (mapGitHubUserToSlack ?e (str ''ghost'') sample_config) = None"
    unfolding res tg ag using am by simp
  have mf: "List.map_filter (\<lambda>v. fst (mapGitHubUserToSlack ?e v sample_config))
      [str ''bob'', str ''ghost'', str ''carol''] = [str ''U2'', str ''U3'']"
    unfolding map_filter_simps rb rc rg by simp
  from B have "fst (mapGitHubUsersToSlack ?e [str ''bob'', str ''ghost'', str ''carol''] sample_config)
     = List.map_filter (\<lambda>v. fst (mapGitHubUserToSlack ?e v sample_config)) [str ''bob'', str ''ghost'', str ''carol'']"
    by blast
  then have batch:
    "fst (mapGitHubUsersToSlack ?e [str ''bob'', str ''ghost'', str ''carol''] sample_config) = [str ''U2'', str ''U3'']"
    unfolding mf .
  from B have "GitHub_users_getByUsername (str ''bob'')
       \<in> set (snd (mapGitHubUserToSlack ?e (str ''bob'') sample_config)) \<longleftrightarrow>
      auto_match_by_email sample_config \<and> fst (table_step ?e (str ''bob'') sample_config) = None"
    by blast
  then have nb: "GitHub_users_getByUsername (str ''bob'')
     \<notin> set (snd (mapGitHubUserToSlack ?e (str ''bob'') sample_config))" unfolding tb by simp
  from C have "GitHub_users_getByUsername (str ''carol'')
       \<in> set (snd (mapGitHubUserToSlack ?e (str ''carol'') sample_config)) \<longleftrightarrow>
      auto_match_by_email sample_config \<and> fst (table_step ?e (str ''carol'') sample_config) = None"
    by blast
  then have yc: "GitHub_users_getByUsername (str ''carol'')
     \<in> set (snd (mapGitHubUserToSlack ?e (str ''carol'') sample_config))" unfolding tc using am by simp
  have lk: "users_lookupByEmail ?e (str ''nobody@co.com'') = Inl (Error (str ''users_not_found''))"
    by (simp add: sample_env_def sample_directory_def)
  from G lk have le: "fst (emailToSlackId ?e (str ''nobody@co.com'')) = None" by blast
  from batch nb yc g ag lk le show ?thesis by blast
qed

section \<open>Code owners\<close>

lemma scan_rules_find:
  "scan_rules acc file rules =
     foldl Set_add acc
       (case find (\<lambda>r. matchPattern file (pattern r)) rules of
          None \<Rightarrow> []
        | Some r \<Rightarrow> owners r)"
  by (induction rules) simp_all

lemma find_rev_last_match:
  "find (\<lambda>r. matchPattern file (pattern r)) (rev rules) = last_match rules file"
proof (induction rules rule: rev_induct)
  case Nil
  then show ?case by (simp add: last_match_def)
next
  case (snoc x xs)
  show ?case
  proof (cases "matchPattern file (pattern x)")
    case True
    then show ?thesis by (simp add: last_match_def)
  next
    case False
    with snoc.IH show ?thesis by (simp add: last_match_def)
  qed
qed

lemma scan_rules_last_match:
  "scan_rules acc file (rev rules) =
     foldl Set_add acc (case last_match rules file of None \<Rightarrow> [] | Some r \<Rightarrow> owners r)"
  by (simp add: scan_rules_find find_rev_last_match)

lemma foldl_scan_set:
  "set (foldl (\<lambda>s f. scan_rules s f (rev rules)) acc files) =
     set acc \<union> (\<Union>f\<in>set files. case last_match rules f of None \<Rightarrow> {} | Some r \<Rightarrow> set (owners r))"
proof (induction files arbitrary: acc)
  case Nil
  then show ?case by simp
next
  case (Cons f fs)
  have "set (scan_rules acc f (rev rules)) =
      set acc \<union> (case last_match rules f of None \<Rightarrow> {} | Some r \<Rightarrow> set (owners r))"
    by (simp add: scan_rules_last_match foldl_Set_add_set split: option.splits)
  with Cons.IH[of "scan_rules acc f (rev rules)"] show ?case by auto
qed

lemma foldl_scan_distinct:
  "distinct acc \<Longrightarrow> distinct (foldl (\<lambda>s f. scan_rules s f rules) acc files)"
proof (induction files arbitrary: acc)
  case Nil
  then show ?case by simp
next
  case (Cons f fs)
  from Cons.prems have "distinct (scan_rules acc f rules)"
    by (simp add: scan_rules_find foldl_Set_add_distinct)
  with Cons.IH show ?case by simp
qed

lemma collect_owners_set:
  "set (collect_owners (rev rules) files) =
     (\<Union>f\<in>set files. case last_match rules f of None \<Rightarrow> {} | Some r \<Rightarrow> set (owners r))"
  by (simp add: collect_owners_def foldl_scan_set)

lemma last_match_None:
  "\<forall>r\<in>set rules. \<not> matchPattern f (pattern r) \<Longrightarrow> last_match rules f = None"
proof -
  assume "\<forall>r\<in>set rules. \<not> matchPattern f (pattern r)"
  then have "filter (\<lambda>r. matchPattern f (pattern r)) rules = []" by (simp add: filter_empty_conv)
  then show ?thesis by (simp add: last_match_def)
qed

lemma getCodeOwners_result:
  "fst (getCodeOwners e n) =
     (if fst (getChangedFiles e n) = [] then []
      else (case fst (find_codeowners e CODEOWNERS_paths) of
              None \<Rightarrow> []
            | Some content \<Rightarrow>
                if content = [] then []
                else collect_owners (parseCodeowners content) (fst (getChangedFiles e n))))"
  by (simp add: getCodeOwners_def split: prod.splits option.splits)

lemma parseCodeowners_empty: "parseCodeowners [] = []"
  by (simp add: parseCodeowners_def parse_line_def trim_def)

text \<open>
  Claim C4. With the rules in the order of the ownership file, the resolver scans them
  in reverse, so for one file the first match of the scan is the last matching rule of
  the file order (\<open>last_match\<close>), and exactly that rule's owners are added. The result
  holds each owner once, and as a set it is the union over the changed files of the
  owners of the winning rule. It is empty when no file matches any rule and when no
  ownership file was found; \<open>getCodeOwners\<close> returns a list in every case.
\<close>

theorem getCodeOwners_last_rule_wins:
  "find (\<lambda>r. matchPattern file (pattern r)) (rev rules) = last_match rules file \<and>
   (\<forall>acc. scan_rules acc file (rev rules) =
      foldl Set_add acc (case last_match rules file of None \<Rightarrow> [] | Some r \<Rightarrow> owners r)) \<and>
   set (collect_owners (rev rules) files) =
     (\<Union>f\<in>set files. case last_match rules f of None \<Rightarrow> {} | Some r \<Rightarrow> set (owners r)) \<and>
   distinct (collect_owners (rev rules) files) \<and>
   ((\<forall>f\<in>set files. \<forall>r\<in>set rules. \<not> matchPattern f (pattern r)) \<longrightarrow>
      collect_owners (rev rules) files = []) \<and>
   set (fst (getCodeOwners e n)) =
     (case fst (find_codeowners e CODEOWNERS_paths) of
        None \<Rightarrow> {}
      | Some content \<Rightarrow>
          (\<Union>f\<in>set (fst (getChangedFiles e n)).
             case last_match (rev (parseCodeowners content)) f of
               None \<Rightarrow> {}
             | Some r \<Rightarrow> set (owners r))) \<and>
   distinct (fst (getCodeOwners e n)) \<and>
   (fst (find_codeowners e CODEOWNERS_paths) = None \<longrightarrow> fst (getCodeOwners e n) = [])"
proof -
  have none: "collect_owners (rev rules) files = []"
    if "\<forall>f\<in>set files. \<forall>r\<in>set rules. \<not> matchPattern f (pattern r)"
  proof -
    from that have "\<forall>f\<in>set files. last_match rules f = None"
      using last_match_None by blast
    then have "set (collect_owners (rev rules) files) = {}"
      by (simp add: collect_owners_set)
    then show ?thesis by simp
  qed
  have d: "distinct (collect_owners rs fs)" for rs fs
    by (simp add: collect_owners_def foldl_scan_distinct)
  have col: "set (collect_owners (parseCodeowners content) fs) =
      (\<Union>f\<in>set fs. case last_match (rev (parseCodeowners content)) f of
               None \<Rightarrow> {} | Some r \<Rightarrow> set (owners r))" for content fs
    using collect_owners_set[of "rev (parseCodeowners content)" fs] by simp
  have col0: "(\<Union>f\<in>set fs. case last_match (rev (parseCodeowners [])) f of
               None \<Rightarrow> {} | Some r \<Rightarrow> set (owners r)) = {}" for fs
    by (simp add: parseCodeowners_empty last_match_def)
  have g: "set (fst (getCodeOwners e n)) =
     (case fst (find_codeowners e CODEOWNERS_paths) of
        None \<Rightarrow> {}
      | Some content \<Rightarrow>
          (\<Union>f\<in>set (fst (getChangedFiles e n)).
             case last_match (rev (parseCodeowners content)) f of
               None \<Rightarrow> {}
             | Some r \<Rightarrow> set (owners r)))"
  proof (cases "fst (find_codeowners e CODEOWNERS_paths)")
    case None
    then show ?thesis by (simp add: getCodeOwners_result)
  next
    case (Some content)
    show ?thesis
    proof (cases "fst (getChangedFiles e n) = []")
      case True
      with Some show ?thesis by (simp add: getCodeOwners_result)
    next
      case False
      show ?thesis
      proof (cases "content = []")
        case True
        with Some False col0[of "fst (getChangedFiles e n)"] show ?thesis
          by (simp add: getCodeOwners_result)
      next
        case ne: False
        with Some False col[of content "fst (getChangedFiles e n)"] show ?thesis
          by (simp add: getCodeOwners_result)
      qed
    qed
  qed
  have gd: "distinct (fst (getCodeOwners e n))"
    by (simp add: getCodeOwners_result d split: option.splits)
  have gn: "fst (find_codeowners e CODEOWNERS_paths) = None \<longrightarrow> fst (getCodeOwners e n) = []"
    by (simp add: getCodeOwners_result)
  have c1: "find (\<lambda>r. matchPattern file (pattern r)) (rev rules) = last_match rules file"
    by (rule find_rev_last_match)
  have c2: "\<forall>acc. scan_rules acc file (rev rules) =
      foldl Set_add acc (case last_match rules file of None \<Rightarrow> [] | Some r \<Rightarrow> owners r)"
    by (simp add: scan_rules_last_match)
  have c3: "set (collect_owners (rev rules) files) =
     (\<Union>f\<in>set files. case last_match rules f of None \<Rightarrow> {} | Some r \<Rightarrow> set (owners r))"
    by (rule collect_owners_set)
  have c4: "distinct (collect_owners (rev rules) files)" by (rule d)
  from c1 c2 c3 c4 none g gd gn show ?thesis by blast
qed

theorem getCodeOwners_last_rule_wins_witness:
  "matchPattern (str ''docs/guide.md'') (str ''*'') \<and>
   last_match [\<lparr>pattern = str ''*'', owners = [str ''bob'']\<rparr>, \<lparr>pattern = str ''docs/'', owners = [str ''carol'']\<rparr>]
      (str ''docs/guide.md'') = Some \<lparr>pattern = str ''docs/'', owners = [str ''carol'']\<rparr> \<and>
   scan_rules [str ''bob'']  (str ''docs/guide.md'')
      (rev [\<lparr>pattern = str ''*'', owners = [str ''bob'']\<rparr>, \<lparr>pattern = str ''docs/'', owners = [str ''carol'']\<rparr>])
     = [str ''bob'', str ''carol''] \<and>
   set (fst (getCodeOwners (sample_env (str ''in-review'')) 7)) = {(str ''bob''), str ''carol''} \<and>
   collect_owners (rev [\<lparr>pattern = str ''/api'', owners = [str ''erin'']\<rparr>]) [str ''src/app.js'', str ''docs/guide.md'']
     = [] \<and>
   fst (find_codeowners
          ((sample_env (str ''in-review''))\<lparr>repos_getContent := \<lambda>p. Inl (Error (str ''Not Found''))\<rparr>)
          CODEOWNERS_paths) = None \<and>
   fst (getCodeOwners
          ((sample_env (str ''in-review''))\<lparr>repos_getContent := \<lambda>p. Inl (Error (str ''Not Found''))\<rparr>) 7) = []"
proof -
  let ?e = "sample_env (str ''in-review'')"
  let ?r1 = "\<lparr>pattern = str ''*'', owners = [str ''bob'']\<rparr>"
  let ?r2 = "\<lparr>pattern = str ''docs/'', owners = [str ''carol'']\<rparr>"
  let ?r3 = "\<lparr>pattern = str ''/api'', owners = [str ''erin'']\<rparr>"
  have m: "matchPattern (str ''docs/guide.md'') (str ''*'')" by (simp add: matchPattern_def)
  have lm: "last_match [?r1, ?r2] (str ''docs/guide.md'') = Some ?r2"
    by (simp add: last_match_def matchPattern_def endsWith_def)
  have lm1: "last_match [?r1, ?r2] (str ''src/app.js'') = Some ?r1"
    by (simp add: last_match_def matchPattern_def endsWith_def)
  note T = getCodeOwners_last_rule_wins[of "str ''docs/guide.md''" "[?r1, ?r2]"
      "[str ''src/app.js'', str ''docs/guide.md'']" ?e 7]
  from T have "\<forall>acc. scan_rules acc (str ''docs/guide.md'') (rev [?r1, ?r2]) =
      foldl Set_add acc (case last_match [?r1, ?r2] (str ''docs/guide.md'') of
                           None \<Rightarrow> [] | Some r \<Rightarrow> owners r)"
    by blast
  then have sc: "scan_rules [str ''bob''] (str ''docs/guide.md'') (rev [?r1, ?r2]) = [str ''bob'', str ''carol'']"
    by (simp add: lm[simplified] Set_add_def)
  have found: "fst (find_codeowners ?e CODEOWNERS_paths)
     = Some (str ''* @bob'' @ [0x0A] @ str ''docs/ @carol'')"
    by (simp add: CODEOWNERS_paths_def sample_env_def)
  have files: "fst (getChangedFiles ?e 7) = [str ''src/app.js'', str ''docs/guide.md'']"
    by (simp add: getChangedFiles_def sample_env_def)
  have parsed: "rev (parseCodeowners (str ''* @bob'' @ [0x0A] @ str ''docs/ @carol'')) = [?r1, ?r2]"
    by (simp add: parseCodeowners_def parse_line_def trim_def is_space_def)
  from T have "set (fst (getCodeOwners ?e 7)) =
     (case fst (find_codeowners ?e CODEOWNERS_paths) of
        None \<Rightarrow> {}
      | Some content \<Rightarrow>
          (\<Union>f\<in>set (fst (getChangedFiles ?e 7)).
             case last_match (rev (parseCodeowners content)) f of
               None \<Rightarrow> {}
             | Some r \<Rightarrow> set (owners r)))"
    by blast
  then have g: "set (fst (getCodeOwners ?e 7)) = {(str ''bob''), str ''carol''}"
    unfolding found files option.case parsed by (auto simp: lm[simplified] lm1[simplified])
  note U = getCodeOwners_last_rule_wins[of "str ''src/app.js''" "[?r3]"
      "[str ''src/app.js'', str ''docs/guide.md'']" ?e 7]
  have no: "\<forall>f\<in>set [str ''src/app.js'', str ''docs/guide.md'']. \<forall>r\<in>set [?r3]. \<not> matchPattern f (pattern r)"
    by (simp add: matchPattern_def endsWith_def)
  from U no have e: "collect_owners (rev [?r3]) [str ''src/app.js'', str ''docs/guide.md''] = []"
    by blast
  let ?bare = "(sample_env (str ''in-review''))\<lparr>repos_getContent := \<lambda>p. Inl (Error (str ''Not Found''))\<rparr>"
  have nf: "fst (find_codeowners ?bare CODEOWNERS_paths) = None"
    by (simp add: CODEOWNERS_paths_def)
  from getCodeOwners_last_rule_wins[of "str ''src/app.js''" "[]" "[]" ?bare 7] nf
  have ne: "fst (getCodeOwners ?bare 7) = []" by blast
  from m lm sc g e nf ne show ?thesis by blast
qed

section \<open>The thread pointer\<close>

lemma startsWith_append_self: "startsWith (p @ r) p"
  by (simp add: startsWith_iff)

lemma startsWith_hd: "p \<noteq> [] \<Longrightarrow> c \<noteq> hd p \<Longrightarrow> \<not> startsWith (c # s) p"
  by (cases p) auto

lemma startsWith_before_char:
  "c \<notin> set p \<Longrightarrow> startsWith (x @ c # y) p \<Longrightarrow> startsWith x p"
proof (induction x p rule: startsWith.induct)
  case (1 s)
  then show ?case by simp
next
  case (2 q qs)
  then show ?case by simp
next
  case (3 d ds q qs)
  then show ?case by simp
qed

lemma startsWith_suffix_includes:
  "startsWith (drop k s) p \<Longrightarrow> includes_str s p"
proof -
  assume "startsWith (drop k s) p"
  then obtain r where "drop k s = p @ r" by (auto simp: startsWith_iff)
  then have "s = take k s @ p @ r" by (metis append_take_drop_id)
  then show ?thesis unfolding includes_str_iff by blast
qed

lemma marker_at_mismatch: "\<not> startsWith s pre \<Longrightarrow> marker_at pre s = None"
  by (simp add: marker_at_def)

text \<open>A stretch of text in which the pattern cannot start is passed over.\<close>

lemma marker_search_skip:
  "\<forall>k<length u. \<not> startsWith (drop k (u @ v)) pre \<Longrightarrow>
     marker_search pre (u @ v) = marker_search pre v"
proof (induction u)
  case Nil
  then show ?case by simp
next
  case (Cons c u)
  from Cons.prems have "\<not> startsWith (drop 0 ((c # u) @ v)) pre" by blast
  then have m: "marker_at pre (c # u @ v) = None" by (simp add: marker_at_mismatch)
  have "\<forall>k<length u. \<not> startsWith (drop k (u @ v)) pre"
  proof (intro allI impI)
    fix k assume "k < length u"
    then have "Suc k < length (c # u)" by simp
    with Cons.prems have "\<not> startsWith (drop (Suc k) ((c # u) @ v)) pre" by blast
    then show "\<not> startsWith (drop k (u @ v)) pre" by simp
  qed
  with Cons.IH m show ?case by simp
qed

lemma marker_search_skip_chars:
  assumes "pre \<noteq> []" and "hd pre \<notin> set u"
  shows "marker_search pre (u @ v) = marker_search pre v"
proof (rule marker_search_skip, intro allI impI)
  fix k assume k: "k < length u"
  then obtain c r where d: "drop k u = c # r" by (cases "drop k u") auto
  then have "c \<in> set u" by (metis in_set_dropD list.set_intros(1))
  with assms have "c \<noteq> hd pre" by auto
  with assms(1) have "\<not> startsWith (c # r @ v) pre" by (rule startsWith_hd)
  with k d show "\<not> startsWith (drop k (u @ v)) pre" by simp
qed

lemma close_overlap:
  "v \<noteq> [] \<Longrightarrow> startsWith (v @ str '' -->'' @ rest) (str '' -->'') \<Longrightarrow> startsWith v (str '' -->'')"
proof -
  assume ne: "v \<noteq> []" and s: "startsWith (v @ str '' -->'' @ rest) (str '' -->'')"
  from ne obtain a v1 where v: "v = a # v1" by (cases v) auto
  show ?thesis
  proof (cases v1)
    case Nil
    with v s show ?thesis by simp
  next
    case (Cons b v2)
    note v1 = this
    show ?thesis
    proof (cases v2)
      case Nil
      with v v1 s show ?thesis by simp
    next
      case (Cons c v3)
      note v2 = this
      show ?thesis
      proof (cases v3)
        case Nil
        with v v1 v2 s show ?thesis by simp
      next
        case (Cons d v4)
        with v v1 v2 s show ?thesis by simp
      qed
    qed
  qed
qed

lemma lazy_capture_value:
  "list_all (\<lambda>c. \<not> is_line_terminator c) t \<Longrightarrow>
   \<forall>k<length t. \<not> startsWith (drop k (t @ str '' -->'' @ rest)) (str '' -->'') \<Longrightarrow>
     lazy_capture (str '' -->'') acc (t @ str '' -->'' @ rest) = Some (acc @ t)"
proof (induction t arbitrary: acc)
  case Nil
  then show ?case by simp
next
  case (Cons d t)
  from Cons.prems(2) have "\<not> startsWith (drop 0 ((d # t) @ str '' -->'' @ rest)) (str '' -->'')" by blast
  then have n: "\<not> startsWith (d # t @ str '' -->'' @ rest) (str '' -->'')" by simp
  have r: "\<forall>k<length t. \<not> startsWith (drop k (t @ str '' -->'' @ rest)) (str '' -->'')"
  proof (intro allI impI)
    fix k assume "k < length t"
    then have "Suc k < length (d # t)" by simp
    with Cons.prems(2) have "\<not> startsWith (drop (Suc k) ((d # t) @ str '' -->'' @ rest)) (str '' -->'')"
      by blast
    then show "\<not> startsWith (drop k (t @ str '' -->'' @ rest)) (str '' -->'')" by simp
  qed
  from Cons.prems(1) have lt: "\<not> is_line_terminator d" "list_all (\<lambda>c. \<not> is_line_terminator c) t"
    by simp_all
  have "lazy_capture (str '' -->'') acc ((d # t) @ str '' -->'' @ rest)
      = lazy_capture (str '' -->'') (acc @ [d]) (t @ str '' -->'' @ rest)"
    using n lt(1) by (simp del: startsWith.simps)
  also have "\<dots> = Some ((acc @ [d]) @ t)" using lt(2) r by (rule Cons.IH)
  finally show ?case by simp
qed

lemma marker_at_value:
  assumes "marker_value v"
  shows "marker_at pre (pre @ v @ str '' -->'' @ rest) = Some v"
proof -
  from assms obtain c t where v: "v = c # t" by (cases v) (auto simp: marker_value_def)
  from assms v have lt: "\<not> is_line_terminator c" "list_all (\<lambda>c. \<not> is_line_terminator c) t"
    and ni: "\<not> includes_str t (str '' -->'')"
    by (simp_all add: marker_value_def)
  have "\<forall>k<length t. \<not> startsWith (drop k (t @ str '' -->'' @ rest)) (str '' -->'')"
  proof (intro allI impI notI)
    fix k assume k: "k < length t" and s: "startsWith (drop k (t @ str '' -->'' @ rest)) (str '' -->'')"
    from k have "drop k t \<noteq> []" by simp
    moreover from k s have "startsWith (drop k t @ str '' -->'' @ rest) (str '' -->'')" by simp
    ultimately have "startsWith (drop k t) (str '' -->'')" by (rule close_overlap)
    then have "includes_str t (str '' -->'')" by (rule startsWith_suffix_includes)
    with ni show False by simp
  qed
  with lt(2) have "lazy_capture (str '' -->'') [c] (t @ str '' -->'' @ rest) = Some ([c] @ t)"
    by (rule lazy_capture_value)
  with lt(1) v show ?thesis
    by (simp add: marker_at_def startsWith_append_self)
qed

lemma marker_search_found:
  "marker_at pre s = Some v \<Longrightarrow> marker_search pre s = Some v"
  by (cases s) simp_all

text \<open>
  When the pattern finds nothing: exactly in a text without a complete marker.
\<close>

lemma startsWith_includes: "startsWith s p \<Longrightarrow> includes_str s p"
  by (cases s; cases p) auto

lemma startsWith_takeWhile:
  "\<forall>x\<in>set p. P x \<Longrightarrow> startsWith (takeWhile P s) p = startsWith s p"
proof (induction s p rule: startsWith.induct)
  case (1 s)
  then show ?case by simp
next
  case (2 q qs)
  then show ?case by simp
next
  case (3 c cs q qs)
  then show ?case by auto
qed

lemma startsWith_Nil: "p \<noteq> [] \<Longrightarrow> \<not> startsWith [] p"
  by (cases p) simp_all

lemma lazy_capture_None_iff:
  assumes "close \<noteq> []" and "\<forall>x\<in>set close. \<not> is_line_terminator x"
  shows "lazy_capture close acc rest = None \<longleftrightarrow>
     \<not> includes_str (takeWhile (\<lambda>d. \<not> is_line_terminator d) rest) close"
proof (induction rest arbitrary: acc)
  case Nil
  from assms(1) show ?case by (simp add: startsWith_Nil)
next
  case (Cons c cs)
  let ?tw = "takeWhile (\<lambda>d. \<not> is_line_terminator d)"
  have sw: "startsWith (?tw (c # cs)) close = startsWith (c # cs) close"
    using assms(2) by (rule startsWith_takeWhile)
  show ?case
  proof (cases "startsWith (c # cs) close")
    case True
    with sw have "startsWith (?tw (c # cs)) close" by simp
    then have "includes_str (?tw (c # cs)) close" by (rule startsWith_includes)
    with True show ?thesis by (simp del: startsWith.simps includes_str.simps takeWhile.simps)
  next
    case ns: False
    show ?thesis
    proof (cases "is_line_terminator c")
      case True
      with ns assms(1) show ?thesis by (simp del: startsWith.simps)
    next
      case False
      then have tw: "?tw (c # cs) = c # ?tw cs" by simp
      from sw ns tw have "\<not> startsWith (c # ?tw cs) close" by simp
      then have "includes_str (?tw (c # cs)) close = includes_str (?tw cs) close"
        unfolding tw by (simp del: startsWith.simps)
      with ns False Cons.IH[of "acc @ [c]"] show ?thesis
        by (simp del: startsWith.simps includes_str.simps takeWhile.simps)
    qed
  qed
qed

lemma close_no_line_terminator: "\<forall>x\<in>set (str '' -->''). \<not> is_line_terminator x"
  by (simp add: is_line_terminator_def)

lemma marker_at_None_iff:
  "marker_at pre s = None \<longleftrightarrow>
     \<not> (startsWith s pre \<and>
        includes_str
          (drop 1 (takeWhile (\<lambda>d. \<not> is_line_terminator d) (drop (length pre) s)))
          (str '' -->''))"
proof (cases "startsWith s pre")
  case False
  then show ?thesis by (simp add: marker_at_def)
next
  case True
  show ?thesis
  proof (cases "drop (length pre) s")
    case Nil
    with True show ?thesis by (simp add: marker_at_def)
  next
    case (Cons c cs)
    show ?thesis
    proof (cases "is_line_terminator c")
      case lt: True
      with True Cons show ?thesis by (simp add: marker_at_def)
    next
      case False
      have "lazy_capture (str '' -->'') [c] cs = None \<longleftrightarrow>
          \<not> includes_str (takeWhile (\<lambda>d. \<not> is_line_terminator d) cs) (str '' -->'')"
        by (rule lazy_capture_None_iff[OF _ close_no_line_terminator]) simp
      with True Cons False show ?thesis
        by (simp add: marker_at_def del: includes_str.simps)
    qed
  qed
qed

lemma marker_at_Nil: "marker_at pre [] = None"
  by (simp add: marker_at_def)

lemma marker_search_None_iff: "marker_search pre s = None \<longleftrightarrow> \<not> complete_marker pre s"
proof (induction s)
  case Nil
  then show ?case by (simp add: marker_at_Nil)
next
  case (Cons c cs)
  have "marker_search pre (c # cs) = None \<longleftrightarrow>
      marker_at pre (c # cs) = None \<and> marker_search pre cs = None"
    by (simp split: option.splits)
  also have "\<dots> \<longleftrightarrow> \<not> complete_marker pre (c # cs)"
    unfolding marker_at_None_iff Cons.IH by (simp del: startsWith.simps includes_str.simps)
  finally show ?case .
qed

text \<open>A value that the pattern captures is not empty, so the truthiness test passes it.\<close>

lemma lazy_capture_length: "lazy_capture close acc rest = Some v \<Longrightarrow> length acc \<le> length v"
proof (induction rest arbitrary: acc)
  case Nil
  then show ?case by (simp split: if_splits)
next
  case (Cons c cs)
  show ?case
  proof (cases "startsWith (c # cs) close")
    case True
    with Cons.prems show ?thesis by (simp del: startsWith.simps)
  next
    case False
    with Cons.prems have "lazy_capture close (acc @ [c]) cs = Some v"
      by (simp del: startsWith.simps split: if_splits)
    from Cons.IH[OF this] show ?thesis by simp
  qed
qed

lemma marker_at_not_empty: "marker_at pre s = Some v \<Longrightarrow> v \<noteq> []"
proof -
  assume a: "marker_at pre s = Some v"
  then obtain c cs where "lazy_capture (str '' -->'') [c] cs = Some v"
    by (auto simp: marker_at_def split: if_splits list.splits)
  from lazy_capture_length[OF this] show ?thesis by auto
qed

lemma marker_search_not_empty: "marker_search pre s = Some v \<Longrightarrow> v \<noteq> []"
proof (induction s)
  case Nil
  then show ?case by (simp add: marker_at_Nil)
next
  case (Cons c cs)
  then show ?case
    by (cases "marker_at pre (c # cs)") (auto dest: marker_at_not_empty)
qed

lemma readThreadTs_search: "readThreadTs b = marker_search (str ''<!-- slack-thread-ts: '') b"
proof (cases "marker_search (str ''<!-- slack-thread-ts: '') b")
  case None
  then show ?thesis by (simp add: readThreadTs_def)
next
  case (Some v)
  with marker_search_not_empty[OF Some] show ?thesis by (simp add: readThreadTs_def)
qed

lemma readStatus_search: "readStatus b = marker_search (str ''<!-- slack-status: '') b"
proof (cases "marker_search (str ''<!-- slack-status: '') b")
  case None
  then show ?thesis by (simp add: readStatus_def)
next
  case (Some v)
  with marker_search_not_empty[OF Some] show ?thesis by (simp add: readStatus_def)
qed

text \<open>
  No match reaches across a line terminator, so of two lines the first one that holds a
  marker decides.
\<close>

lemma startsWith_before_char_iff:
  "c \<notin> set p \<Longrightarrow> startsWith (x @ c # y) p = startsWith x p"
proof
  assume "c \<notin> set p" and "startsWith (x @ c # y) p"
  then show "startsWith x p" by (rule startsWith_before_char)
next
  assume "startsWith x p"
  then show "startsWith (x @ c # y) p" by (auto simp: startsWith_iff)
qed

lemma lazy_capture_line:
  assumes "is_line_terminator c" and "c \<notin> set close" and "close \<noteq> []"
  shows "lazy_capture close acc (x @ c # y) = lazy_capture close acc x"
proof (induction x arbitrary: acc)
  case Nil
  from assms(2,3) have "c \<noteq> hd close" by (cases close) auto
  with assms(3) have "\<not> startsWith (c # y) close" by (rule startsWith_hd)
  with assms(1,3) show ?case by (simp add: startsWith_Nil del: startsWith.simps)
next
  case (Cons d ds)
  have "startsWith ((d # ds) @ c # y) close = startsWith (d # ds) close"
    using assms(2) by (rule startsWith_before_char_iff)
  with Cons.IH[of "acc @ [d]"] show ?case by (simp del: startsWith.simps)
qed

lemma line_terminator_not_close: "is_line_terminator c \<Longrightarrow> c \<notin> set (str '' -->'')"
  by (auto simp: is_line_terminator_def)

lemma marker_at_line:
  assumes "is_line_terminator c" and "c \<notin> set pre"
  shows "marker_at pre (x @ c # y) = marker_at pre x"
proof (cases "startsWith x pre")
  case False
  with assms(2) have "\<not> startsWith (x @ c # y) pre" by (simp add: startsWith_before_char_iff)
  with False show ?thesis by (simp add: marker_at_mismatch)
next
  case True
  with assms(2) have s: "startsWith (x @ c # y) pre" by (simp add: startsWith_before_char_iff)
  from True have len: "length pre \<le> length x" by (auto simp: startsWith_iff)
  then have d: "drop (length pre) (x @ c # y) = drop (length pre) x @ c # y" by simp
  show ?thesis
  proof (cases "drop (length pre) x")
    case Nil
    with True s d assms(1) show ?thesis by (simp add: marker_at_def)
  next
    case (Cons e es)
    have "lazy_capture (str '' -->'') [e] (es @ c # y) = lazy_capture (str '' -->'') [e] es"
      using assms(1) line_terminator_not_close[OF assms(1)] by (rule lazy_capture_line) simp
    with True s d Cons show ?thesis by (simp add: marker_at_def)
  qed
qed

lemma marker_search_line:
  assumes "is_line_terminator c" and "c \<notin> set pre"
  shows "marker_search pre (x @ c # y) =
     (case marker_search pre x of Some v \<Rightarrow> Some v | None \<Rightarrow> marker_search pre (c # y))"
proof (induction x)
  case Nil
  then show ?case by (simp add: marker_at_Nil)
next
  case (Cons d ds)
  have "marker_at pre ((d # ds) @ c # y) = marker_at pre (d # ds)"
    using assms by (rule marker_at_line)
  with Cons.IH show ?case by (simp split: option.splits)
qed

lemma line_feed: "is_line_terminator 0x0A"
  by (simp add: is_line_terminator_def)

lemma readThreadTs_writeMarkers:
  assumes b: "\<not> complete_marker (str ''<!-- slack-thread-ts: '') b" and t: "marker_value t"
  shows "readThreadTs (writeMarkers b t s) = Some t"
proof -
  define pre where "pre = str ''<!-- slack-thread-ts: ''"
  define rest where "rest = [0x0A] @ str ''<!-- slack-status: '' @ s @ str '' -->''"
  define y where "y = pre @ t @ str '' -->'' @ rest"
  have p: "pre \<noteq> []" "hd pre \<notin> set [0x0A, 0x0A]" "0x0A \<notin> set pre"
    by (simp_all add: pre_def)
  have w: "writeMarkers b t s = b @ 0x0A # ([0x0A] @ y)"
    by (simp add: writeMarkers_def y_def rest_def pre_def)
  from b have none: "marker_search pre b = None"
    by (simp add: marker_search_None_iff pre_def)
  have "marker_search pre (b @ 0x0A # ([0x0A] @ y))
      = (case marker_search pre b of Some v \<Rightarrow> Some v
         | None \<Rightarrow> marker_search pre (0x0A # ([0x0A] @ y)))"
    using line_feed p(3) by (rule marker_search_line)
  also have "\<dots> = marker_search pre ([0x0A, 0x0A] @ y)" by (simp add: none)
  also have "\<dots> = marker_search pre y"
    using p(1,2) by (rule marker_search_skip_chars)
  also have "\<dots> = Some t"
    unfolding y_def using marker_at_value[OF t, of pre rest] by (rule marker_search_found)
  finally have "marker_search pre (writeMarkers b t s) = Some t" by (simp only: w)
  then show ?thesis by (simp only: readThreadTs_search pre_def)
qed

lemma readStatus_writeMarkers:
  assumes b: "\<not> complete_marker (str ''<!-- slack-status: '') b"
    and t: "\<not> complete_marker (str ''<!-- slack-status: '') (t @ str '' -->'')"
    and s: "marker_value s"
  shows "readStatus (writeMarkers b t s) = Some s"
proof -
  define pre where "pre = str ''<!-- slack-status: ''"
  define tail where "tail = str ''!-- slack-thread-ts: ''"
  define z where "z = pre @ s @ str '' -->'' @ []"
  define x where "x = (unit_of CHR ''<'' # tail) @ t @ str '' -->''"
  have p: "pre \<noteq> []" "hd pre \<notin> set [0x0A, 0x0A]" "0x0A \<notin> set pre" "hd pre \<notin> set [0x0A]"
    "hd pre \<notin> set tail"
    by (simp_all add: pre_def tail_def)
  have w: "writeMarkers b t s = b @ 0x0A # ([0x0A] @ (x @ 0x0A # z))"
    by (simp add: writeMarkers_def x_def z_def tail_def pre_def)
  from b have none: "marker_search pre b = None"
    by (simp add: marker_search_None_iff pre_def)
  from t have nt: "marker_search pre (t @ str '' -->'') = None"
    by (simp add: marker_search_None_iff pre_def)
  have "marker_at pre (unit_of CHR ''<'' # tail @ t @ str '' -->'') = None"
    by (simp add: marker_at_def pre_def tail_def)
  then have "marker_search pre x = marker_search pre (tail @ t @ str '' -->'')"
    by (simp add: x_def)
  also have "\<dots> = marker_search pre (t @ str '' -->'')"
    using p(1,5) by (rule marker_search_skip_chars)
  finally have nx: "marker_search pre x = None" by (simp only: nt)
  have "marker_search pre (b @ 0x0A # ([0x0A] @ (x @ 0x0A # z)))
      = (case marker_search pre b of Some v \<Rightarrow> Some v
         | None \<Rightarrow> marker_search pre (0x0A # ([0x0A] @ (x @ 0x0A # z))))"
    using line_feed p(3) by (rule marker_search_line)
  also have "\<dots> = marker_search pre ([0x0A, 0x0A] @ (x @ 0x0A # z))" by (simp add: none)
  also have "\<dots> = marker_search pre (x @ 0x0A # z)"
    using p(1,2) by (rule marker_search_skip_chars)
  also have "\<dots> = (case marker_search pre x of Some v \<Rightarrow> Some v
         | None \<Rightarrow> marker_search pre (0x0A # z))"
    using line_feed p(3) by (rule marker_search_line)
  also have "\<dots> = marker_search pre ([0x0A] @ z)" by (simp add: nx)
  also have "\<dots> = marker_search pre z"
    using p(1,4) by (rule marker_search_skip_chars)
  also have "\<dots> = Some s"
    unfolding z_def using marker_at_value[OF s, of pre "[]"] by (rule marker_search_found)
  finally have "marker_search pre (writeMarkers b t s) = Some s" by (simp only: w)
  then show ?thesis by (simp only: readStatus_search pre_def)
qed

text \<open>What the pattern captures is always a value that a marker can hold.\<close>

lemma startsWith_trans: "startsWith s u \<Longrightarrow> startsWith u p \<Longrightarrow> startsWith s p"
  by (auto simp: startsWith_iff)

lemma lazy_capture_Some:
  assumes "close \<noteq> []"
  shows "lazy_capture close acc rest = Some v \<Longrightarrow>
     \<exists>u. v = acc @ u \<and> startsWith rest u \<and>
         list_all (\<lambda>c. \<not> is_line_terminator c) u \<and> \<not> includes_str u close"
proof (induction rest arbitrary: acc)
  case Nil
  with assms show ?case by (simp split: if_splits)
next
  case (Cons d ds)
  show ?case
  proof (cases "startsWith (d # ds) close")
    case True
    with Cons.prems have "v = acc @ []" by (simp del: startsWith.simps)
    with assms show ?thesis by (intro exI[of _ "[]"]) simp
  next
    case False
    with Cons.prems have lt: "\<not> is_line_terminator d"
      and r: "lazy_capture close (acc @ [d]) ds = Some v"
      by (simp_all del: startsWith.simps split: if_splits)
    from Cons.IH[OF r] obtain u where u: "v = (acc @ [d]) @ u" "startsWith ds u"
      "list_all (\<lambda>c. \<not> is_line_terminator c) u" "\<not> includes_str u close" by blast
    have "\<not> startsWith (d # u) close"
    proof
      assume a: "startsWith (d # u) close"
      from u(2) have "startsWith (d # ds) (d # u)" by simp
      from this a have "startsWith (d # ds) close" by (rule startsWith_trans)
      with False show False by simp
    qed
    with u(4) have "\<not> includes_str (d # u) close" by (simp del: startsWith.simps)
    with u lt show ?thesis by (intro exI[of _ "d # u"]) simp
  qed
qed

lemma marker_at_marker_value: "marker_at pre s = Some v \<Longrightarrow> marker_value v"
proof -
  assume "marker_at pre s = Some v"
  then obtain c cs where c: "\<not> is_line_terminator c"
    and l: "lazy_capture (str '' -->'') [c] cs = Some v"
    by (auto simp: marker_at_def split: if_splits list.splits)
  have "str '' -->'' \<noteq> []" by simp
  from lazy_capture_Some[OF this l] obtain u where "v = [c] @ u"
    "list_all (\<lambda>c. \<not> is_line_terminator c) u" "\<not> includes_str u (str '' -->'')" by blast
  with c show ?thesis by (simp add: marker_value_def)
qed

lemma marker_search_marker_value: "marker_search pre s = Some v \<Longrightarrow> marker_value v"
proof (induction s)
  case Nil
  then show ?case by (simp add: marker_at_Nil)
next
  case (Cons c cs)
  then show ?case
    by (cases "marker_at pre (c # cs)") (auto dest: marker_at_marker_value)
qed

text \<open>
  Claim C3, as the code has it. A complete marker is an opening that is followed, on its
  line, by at least one character and then by \<^verbatim>\<open> -->\<close>. Writing the two markers
  behind a body and reading the thread timestamp back gives the written timestamp when
  the body holds no complete thread marker and the timestamp is non-empty, on one line
  and without \<^verbatim>\<open> -->\<close> behind its first character, whatever the status. Reading
  the status back gives the written status when the body holds no complete status
  marker, the status is non-empty, on one line and without \<^verbatim>\<open> -->\<close> behind its
  first character, and the timestamp, closed by \<^verbatim>\<open> -->\<close>, does not itself form a
  complete status marker. Any other content of the body is ignored. A body holds no
  complete marker exactly when the reader finds nothing in it, and a reader never
  returns anything but a value of that form, whatever the text.
\<close>

theorem markers_round_trip:
  "(readThreadTs b = None \<longleftrightarrow> \<not> complete_marker (str ''<!-- slack-thread-ts: '') b) \<and>
   (readStatus b = None \<longleftrightarrow> \<not> complete_marker (str ''<!-- slack-status: '') b) \<and>
   (\<forall>v. readThreadTs b = Some v \<or> readStatus b = Some v \<longrightarrow> marker_value v) \<and>
   (\<not> complete_marker (str ''<!-- slack-thread-ts: '') b \<and> marker_value t \<longrightarrow>
      readThreadTs (writeMarkers b t s) = Some t \<and>
      (\<forall>e n pr. pulls_get e n = Inr pr \<and> pull_request.body pr = Some (writeMarkers b t s)
         \<longrightarrow> fst (getSlackThreadTs e n) = Some t)) \<and>
   (\<not> complete_marker (str ''<!-- slack-status: '') b \<and>
    \<not> complete_marker (str ''<!-- slack-status: '') (t @ str '' -->'') \<and>
    marker_value s \<longrightarrow>
      readStatus (writeMarkers b t s) = Some s)"
proof -
  have c1: "readThreadTs b = None \<longleftrightarrow> \<not> complete_marker (str ''<!-- slack-thread-ts: '') b"
    by (simp only: readThreadTs_search marker_search_None_iff)
  have c2: "readStatus b = None \<longleftrightarrow> \<not> complete_marker (str ''<!-- slack-status: '') b"
    by (simp only: readStatus_search marker_search_None_iff)
  have c3: "\<forall>v. readThreadTs b = Some v \<or> readStatus b = Some v \<longrightarrow> marker_value v"
    unfolding readThreadTs_search readStatus_search
    using marker_search_marker_value by blast
  have c4: "readThreadTs (writeMarkers b t s) = Some t \<and>
      (\<forall>e n pr. pulls_get e n = Inr pr \<and> pull_request.body pr = Some (writeMarkers b t s)
         \<longrightarrow> fst (getSlackThreadTs e n) = Some t)"
    if h: "\<not> complete_marker (str ''<!-- slack-thread-ts: '') b \<and> marker_value t"
  proof -
    from h have rt: "readThreadTs (writeMarkers b t s) = Some t"
      by (intro readThreadTs_writeMarkers) simp_all
    have "fst (getSlackThreadTs e n) = Some t"
      if "pulls_get e n = Inr pr \<and> pull_request.body pr = Some (writeMarkers b t s)"
      for e n pr
      using that rt by (simp add: getSlackThreadTs_def)
    with rt show ?thesis by blast
  qed
  have c5: "readStatus (writeMarkers b t s) = Some s"
    if h: "\<not> complete_marker (str ''<!-- slack-status: '') b \<and>
        \<not> complete_marker (str ''<!-- slack-status: '') (t @ str '' -->'') \<and>
        marker_value s"
    using h by (intro readStatus_writeMarkers) simp_all
  from c1 c2 c3 c4 c5 show ?thesis by blast
qed

theorem markers_round_trip_witness:
  "\<not> complete_marker (str ''<!-- slack-thread-ts: '')
       (str ''Fix <!-- slack-thread-ts: (see #12) <b>now</b>'') \<and>
   \<not> complete_marker (str ''<!-- slack-status: '')
       (str ''Fix <!-- slack-thread-ts: (see #12) <b>now</b>'') \<and>
   marker_value (str ''123.45'') \<and>
   \<not> complete_marker (str ''<!-- slack-status: '') (str ''123.45'' @ str '' -->'') \<and>
   marker_value (str ''in-review'') \<and>
   readThreadTs (writeMarkers (str ''Fix <!-- slack-thread-ts: (see #12) <b>now</b>'')
       (str ''123.45'') (str ''in-review'')) = Some (str ''123.45'') \<and>
   readStatus (writeMarkers (str ''Fix <!-- slack-thread-ts: (see #12) <b>now</b>'')
       (str ''123.45'') (str ''in-review'')) = Some (str ''in-review'') \<and>
   readThreadTs (str ''Fix <!-- slack-thread-ts: (see #12) <b>now</b>'') = None \<and>
   readThreadTs (str ''a <!-- slack-thread-ts: 1.0 --> b'') = Some (str ''1.0'') \<and>
   marker_value (str ''1.0'') \<and>
   pulls_get (sample_env (str ''in-review'')) 7 = Inr (sample_pr (str ''in-review'')) \<and>
   pull_request.body (sample_pr (str ''in-review''))
     = Some (writeMarkers (str ''Fix'') (str ''123.45'') (str ''in-review'')) \<and>
   fst (getSlackThreadTs (sample_env (str ''in-review'')) 7) = Some (str ''123.45'')"
proof -
  let ?b = "str ''Fix <!-- slack-thread-ts: (see #12) <b>now</b>''"
  let ?m = "str ''a <!-- slack-thread-ts: 1.0 --> b''"
  note T = markers_round_trip[of ?b "str ''123.45''" "str ''in-review''"]
  note M = markers_round_trip[of ?m "str ''123.45''" "str ''in-review''"]
  have h1: "\<not> complete_marker (str ''<!-- slack-thread-ts: '') ?b"
    by (simp add: is_line_terminator_def)
  have h2: "\<not> complete_marker (str ''<!-- slack-status: '') ?b"
    by (simp add: is_line_terminator_def)
  have h3: "marker_value (str ''123.45'')"
    by (simp add: marker_value_def is_line_terminator_def)
  have h4: "\<not> complete_marker (str ''<!-- slack-status: '') (str ''123.45'' @ str '' -->'')"
    by (simp add: is_line_terminator_def)
  have h5: "marker_value (str ''in-review'')"
    by (simp add: marker_value_def is_line_terminator_def)
  from T[THEN conjunct2, THEN conjunct2, THEN conjunct2, THEN conjunct1] h1 h3
  have rt: "readThreadTs (writeMarkers ?b (str ''123.45'') (str ''in-review'')) = Some (str ''123.45'')"
    by blast
  from T[THEN conjunct2, THEN conjunct2, THEN conjunct2, THEN conjunct2] h2 h4 h5
  have rs: "readStatus (writeMarkers ?b (str ''123.45'') (str ''in-review'')) = Some (str ''in-review'')"
    by blast
  from T[THEN conjunct1] h1 have n: "readThreadTs ?b = None" by blast
  have m: "readThreadTs ?m = Some (str ''1.0'')"
    by (simp add: readThreadTs_def marker_at_def is_line_terminator_def)
  from M[THEN conjunct2, THEN conjunct2, THEN conjunct1] m
  have v: "marker_value (str ''1.0'')" by blast
  note S = markers_round_trip[of "str ''Fix''" "str ''123.45''" "str ''in-review''"]
  have sb: "\<not> complete_marker (str ''<!-- slack-thread-ts: '') (str ''Fix'')" by simp
  have pg: "pulls_get (sample_env (str ''in-review'')) 7 = Inr (sample_pr (str ''in-review''))"
    by (simp add: sample_env_def)
  have pb: "pull_request.body (sample_pr (str ''in-review''))
     = Some (writeMarkers (str ''Fix'') (str ''123.45'') (str ''in-review''))"
    by (simp add: sample_pr_def)
  from S[THEN conjunct2, THEN conjunct2, THEN conjunct2, THEN conjunct1] sb h3
  have "\<forall>e n pr. pulls_get e n = Inr pr \<and>
        pull_request.body pr = Some (writeMarkers (str ''Fix'') (str ''123.45'') (str ''in-review''))
         \<longrightarrow> fst (getSlackThreadTs e n) = Some (str ''123.45'')"
    by blast
  with pg pb have gt: "fst (getSlackThreadTs (sample_env (str ''in-review'')) 7) = Some (str ''123.45'')"
    by blast
  show ?thesis
    by (intro conjI) (rule h1, rule h2, rule h3, rule h4, rule h5, rule rt, rule rs, rule n,
      rule m, rule v, rule pg, rule pb, rule gt)
qed

text \<open>
  The claim as stated fails. A pull request for which the opening handler runs a second
  time has a body that already holds the markers of the first run: the new markers go
  behind the old ones and the readers take the first. And not every pair of values comes
  back: an empty value, a value of two lines and a value with \<^verbatim>\<open> -->\<close> inside
  are not read back as written, be it the timestamp or the status, and a timestamp that
  holds the opening of a status marker changes the status that is read.
\<close>

theorem markers_round_trip_counterexample:
  "readThreadTs
     (writeMarkers (writeMarkers (str ''Fix'') (str ''1.0'') (str ''review-pending''))
        (str ''123.45'') (str ''in-review'')) = Some (str ''1.0'') \<and>
   readThreadTs
     (writeMarkers (writeMarkers (str ''Fix'') (str ''1.0'') (str ''review-pending''))
        (str ''123.45'') (str ''in-review'')) \<noteq> Some (str ''123.45'') \<and>
   readStatus
     (writeMarkers (writeMarkers (str ''Fix'') (str ''1.0'') (str ''review-pending''))
        (str ''123.45'') (str ''in-review'')) = Some (str ''review-pending'') \<and>
   readThreadTs (writeMarkers (str ''Fix'') [] (str ''in-review'')) = None \<and>
   readThreadTs (writeMarkers (str ''Fix'') (str ''1'' @ [0x0A] @ str ''2'') (str ''in-review''))
     = None \<and>
   readThreadTs (writeMarkers (str ''Fix'') (str ''1 --> 2'') (str ''in-review''))
     = Some (str ''1'') \<and>
   readStatus (writeMarkers (str ''Fix'') (str ''1 <!-- slack-status: merged'') (str ''in-review''))
     = Some (str ''merged'') \<and>
   readStatus (writeMarkers (str ''Fix'') (str ''123.45'') []) = None \<and>
   readStatus (writeMarkers (str ''Fix'') (str ''123.45'') (str ''in'' @ [0x0A] @ str ''review''))
     = None \<and>
   readStatus (writeMarkers (str ''Fix'') (str ''123.45'') (str ''in --> review''))
     = Some (str ''in'')"
  by (simp add: readThreadTs_def readStatus_def writeMarkers_def marker_at_def
        is_line_terminator_def)

section \<open>The comment handler\<close>

lemma mapGitHubUserToSlack_lookups: "list_all is_lookup (snd (mapGitHubUserToSlack e u cfg))"
  by (simp add: mapGitHubUserToSlack_calls table_step_calls auto_step_calls
        split: option.splits sum.splits)

lemma mapGitHubUsersToSlack_lookups: "list_all is_lookup (snd (mapGitHubUsersToSlack e us cfg))"
  by (induction us) (simp_all add: split_beta mapGitHubUserToSlack_lookups)

lemma lookups_no_status_write: "list_all is_lookup t \<Longrightarrow> filter is_status_write t = []"
proof (induction t)
  case Nil
  then show ?case by simp
next
  case (Cons c t)
  then show ?case by (cases c) simp_all
qed

lemma lookups_no_post: "list_all is_lookup t \<Longrightarrow> filter is_post t = []"
proof (induction t)
  case Nil
  then show ?case by simp
next
  case (Cons c t)
  then show ?case by (cases c) simp_all
qed

lemma getSlackThreadTs_calls: "snd (getSlackThreadTs e n) = [GitHub_pulls_get n]"
  by (simp add: getSlackThreadTs_def)

text \<open>
  With \<open>parsePRData\<close> as it stands, the branch that re-renders the head message stops
  at the payload without repository: the status is written, the pull request is fetched,
  and the error leaves the handler.
\<close>

lemma updateHeadMessage_stops:
  "updateHeadMessage e cfg ch n thread_ts new =
     (case updatePRStatus e n new of
        Inl err \<Rightarrow> (Inl err, [Call_updatePRStatus n new])
      | Inr u \<Rightarrow>
          (case pulls_get e n of
             Inl err \<Rightarrow> (Inl err, [Call_updatePRStatus n new, GitHub_pulls_get n])
           | Inr pr \<Rightarrow> (Inl (TypeError (str ''Cannot read properties of undefined (reading 'name')'')),
                        [Call_updatePRStatus n new, GitHub_pulls_get n])))"
  by (simp add: updateHeadMessage_def parsePRData_def split: sum.splits)

lemma updateHeadMessage_status_write:
  "filter is_status_write (snd (updateHeadMessage e cfg ch n thread_ts new))
     = [Call_updatePRStatus n new]"
  by (simp add: updateHeadMessage_stops split: sum.splits)

lemma updateHeadMessage_no_post:
  "filter is_post (snd (updateHeadMessage e cfg ch n thread_ts new)) = []"
  by (simp add: updateHeadMessage_stops split: sum.splits)

lemma targetUsers_calls_plain:
  "filter is_status_write (snd (targetUsers e cd)) = [] \<and> filter is_post (snd (targetUsers e cd)) = []"
  by (simp add: targetUsers_def Let_def split: sum.splits)

lemma notifyThread_no_status_write:
  "filter is_status_write (snd (notifyThread e cfg ch cd thread_ts)) = []"
proof -
  obtain r t0 where tu: "targetUsers e cd = (r, t0)" by (cases "targetUsers e cd")
  with targetUsers_calls_plain[of e cd] have t0: "filter is_status_write t0 = []" by simp
  have m: "filter is_status_write (snd (mapGitHubUsersToSlack e us cfg)) = []" for us
    by (rule lookups_no_status_write[OF mapGitHubUsersToSlack_lookups])
  have a: "filter is_status_write (snd (mapGitHubUserToSlack e u cfg)) = []" for u
    by (rule lookups_no_status_write[OF mapGitHubUserToSlack_lookups])
  show ?thesis
    using tu t0 m a
    by (cases r) (simp_all add: notifyThread_def sendThreadReply_def split_beta Let_def
          split: sum.splits)
qed

lemma notifyThread_posts:
  "filter is_post (snd (notifyThread e cfg ch cd thread_ts)) =
     (case fst (targetUsers e cd) of
        Inl err \<Rightarrow> []
      | Inr targets \<Rightarrow>
          if targets = [] then []
          else if fst (mapGitHubUsersToSlack e (new_Set targets) cfg) = [] then []
          else [Slack_chat_postMessage ch (Some thread_ts)
                  (CommentMessage cd (fst (mapGitHubUsersToSlack e (new_Set targets) cfg))
                     (fst (mapGitHubUserToSlack e (commentData.author cd) cfg)))])"
proof -
  obtain r t0 where tu: "targetUsers e cd = (r, t0)" by (cases "targetUsers e cd")
  with targetUsers_calls_plain[of e cd] have t0: "filter is_post t0 = []" by simp
  have m: "filter is_post (snd (mapGitHubUsersToSlack e us cfg)) = []" for us
    by (rule lookups_no_post[OF mapGitHubUsersToSlack_lookups])
  have a: "filter is_post (snd (mapGitHubUserToSlack e u cfg)) = []" for u
    by (rule lookups_no_post[OF mapGitHubUserToSlack_lookups])
  show ?thesis
    using tu t0 m a
    by (cases r) (simp_all add: notifyThread_def sendThreadReply_def split_beta Let_def
          split: sum.splits)
qed

lemma readThreadTs_writeMarkers_sample:
  "readThreadTs (writeMarkers (str ''Fix'') (str ''123.45'') st) = Some (str ''123.45'')"
  by (simp add: readThreadTs_def writeMarkers_def marker_at_def is_line_terminator_def)

lemma sample_thread: "fst (getSlackThreadTs (sample_env st) 7) = Some (str ''123.45'')"
  using readThreadTs_writeMarkers_sample[of st]
  by (simp add: getSlackThreadTs_def sample_env_def sample_pr_def)

text \<open>The handler once it is past the two gates and has read the status.\<close>

lemma handleComment_past_gates:
  assumes "commentData.author cd \<noteq> str ''github-actions[bot]''"
    and "fst (getSlackThreadTs e (prNumber cd)) = Some thread_ts"
    and "getPRStatus e (prNumber cd) = Inr cur"
  shows "snd (handleComment e cd cfg ch) =
     [GitHub_pulls_get (prNumber cd), Call_getPRStatus (prNumber cd)] @
     (if nextStatus (reviewState cd) cur \<noteq> cur
      then snd (updateHeadMessage e cfg ch (prNumber cd) thread_ts (nextStatus (reviewState cd) cur))
      else snd (notifyThread e cfg ch cd thread_ts))"
proof -
  obtain x t where g: "getSlackThreadTs e (prNumber cd) = (x, t)"
    by (cases "getSlackThreadTs e (prNumber cd)")
  with assms(2) getSlackThreadTs_calls[of e "prNumber cd"]
  have g': "getSlackThreadTs e (prNumber cd) = (Some thread_ts, [GitHub_pulls_get (prNumber cd)])"
    by simp
  have u: "\<exists>err. fst (updateHeadMessage e cfg ch n thread_ts new) = Inl err" for n new
    by (simp add: updateHeadMessage_stops split: sum.splits)
  show ?thesis
  proof (cases "nextStatus (reviewState cd) cur \<noteq> cur")
    case True
    from u obtain err where
      "fst (updateHeadMessage e cfg ch (prNumber cd) thread_ts (nextStatus (reviewState cd) cur)) = Inl err"
      by blast
    with True assms(1,3) g' show ?thesis
      by (simp add: handleComment_def split_beta Let_def)
  next
    case False
    with assms(1,3) g' show ?thesis
      by (simp add: handleComment_def split_beta Let_def)
  qed
qed

lemma handleComment_posts:
  "filter is_post (snd (handleComment e cd cfg ch)) =
     (if commentData.author cd = str ''github-actions[bot]'' then []
      else (case fst (getSlackThreadTs e (prNumber cd)) of
              None \<Rightarrow> []
            | Some thread_ts \<Rightarrow>
                (case getPRStatus e (prNumber cd) of
                   Inl err \<Rightarrow> []
                 | Inr cur \<Rightarrow>
                     if nextStatus (reviewState cd) cur \<noteq> cur then []
                     else filter is_post (snd (notifyThread e cfg ch cd thread_ts)))))"
proof (cases "commentData.author cd = str ''github-actions[bot]''")
  case True
  then show ?thesis by (simp add: handleComment_def)
next
  case nb: False
  obtain x t where g: "getSlackThreadTs e (prNumber cd) = (x, t)"
    by (cases "getSlackThreadTs e (prNumber cd)")
  with getSlackThreadTs_calls[of e "prNumber cd"] have t: "t = [GitHub_pulls_get (prNumber cd)]"
    by simp
  show ?thesis
  proof (cases x)
    case None
    with nb g t show ?thesis by (simp add: handleComment_def)
  next
    case (Some thread_ts)
    show ?thesis
    proof (cases "getPRStatus e (prNumber cd)")
      case (Inl err)
      with nb g t Some show ?thesis by (simp add: handleComment_def)
    next
      case (Inr cur)
      from g Some have "fst (getSlackThreadTs e (prNumber cd)) = Some thread_ts" by simp
      from handleComment_past_gates[OF nb this Inr, of cfg ch] g Some Inr nb
      show ?thesis by (simp add: updateHeadMessage_no_post)
    qed
  qed
qed

text \<open>
  Claim C1. A review that approves sets the status to \<open>approved\<close>, a review that
  requests changes sets it to \<open>changes-requested\<close>, whatever the stored status. Any
  other comment event changes the status exactly when the stored status is
  \<open>review-pending\<close>, and then to \<open>in-review\<close>; otherwise the status stays as it is.
  In the handler, for an event that is past the bot test, has a thread pointer and a
  stored status, the status is written exactly when it changes, once, with that next
  status.
\<close>

theorem nextStatus_transitions:
  "(rs = Some (str ''approved'') \<longrightarrow> nextStatus rs cur = str ''approved'') \<and>
   (rs = Some (str ''changes_requested'') \<longrightarrow> nextStatus rs cur = str ''changes-requested'') \<and>
   (rs \<noteq> Some (str ''approved'') \<and> rs \<noteq> Some (str ''changes_requested'') \<longrightarrow>
      (cur = str ''review-pending'' \<longrightarrow> nextStatus rs cur = str ''in-review'') \<and>
      (cur \<noteq> str ''review-pending'' \<longrightarrow> nextStatus rs cur = cur) \<and>
      (nextStatus rs cur \<noteq> cur \<longleftrightarrow> cur = str ''review-pending'')) \<and>
   (commentData.author cd \<noteq> str ''github-actions[bot]'' \<and>
    fst (getSlackThreadTs e (prNumber cd)) = Some thread_ts \<and>
    getPRStatus e (prNumber cd) = Inr cur \<longrightarrow>
      filter is_status_write (snd (handleComment e cd cfg ch)) =
        (if nextStatus (reviewState cd) cur \<noteq> cur
         then [Call_updatePRStatus (prNumber cd) (nextStatus (reviewState cd) cur)]
         else []))"
proof -
  have a: "rs = Some (str ''approved'') \<longrightarrow> nextStatus rs cur = str ''approved''"
    by (simp add: nextStatus_def APPROVED_def)
  have b: "rs = Some (str ''changes_requested'') \<longrightarrow> nextStatus rs cur = str ''changes-requested''"
    by (simp add: nextStatus_def CHANGES_REQUESTED_def)
  have c: "rs \<noteq> Some (str ''approved'') \<and> rs \<noteq> Some (str ''changes_requested'') \<longrightarrow>
      (cur = str ''review-pending'' \<longrightarrow> nextStatus rs cur = str ''in-review'') \<and>
      (cur \<noteq> str ''review-pending'' \<longrightarrow> nextStatus rs cur = cur) \<and>
      (nextStatus rs cur \<noteq> cur \<longleftrightarrow> cur = str ''review-pending'')"
    by (auto simp: nextStatus_def REVIEW_PENDING_def IN_REVIEW_def)
  have d: "filter is_status_write (snd (handleComment e cd cfg ch)) =
        (if nextStatus (reviewState cd) cur \<noteq> cur
         then [Call_updatePRStatus (prNumber cd) (nextStatus (reviewState cd) cur)]
         else [])"
    if "commentData.author cd \<noteq> str ''github-actions[bot]'' \<and>
        fst (getSlackThreadTs e (prNumber cd)) = Some thread_ts \<and>
        getPRStatus e (prNumber cd) = Inr cur"
  proof -
    from that have 1: "commentData.author cd \<noteq> str ''github-actions[bot]''"
      and 2: "fst (getSlackThreadTs e (prNumber cd)) = Some thread_ts"
      and 3: "getPRStatus e (prNumber cd) = Inr cur" by simp_all
    show ?thesis
      unfolding handleComment_past_gates[OF 1 2 3]
      by (simp add: updateHeadMessage_status_write notifyThread_no_status_write)
  qed
  from a b c d show ?thesis by blast
qed

theorem nextStatus_transitions_witness:
  "nextStatus (Some (str ''changes_requested'')) (str ''approved'') = str ''changes-requested'' \<and>
   nextStatus (Some (str ''approved'')) (str ''changes-requested'') = str ''approved'' \<and>
   nextStatus None (str ''review-pending'') = str ''in-review'' \<and>
   nextStatus (Some (str ''commented'')) (str ''in-review'') = str ''in-review'' \<and>
   nextStatus None (str ''approved'') = str ''approved'' \<and>
   filter is_status_write
     (snd (handleComment (sample_env (str ''review-pending'')) (sample_comment (str ''bob'') None (str ''LGTM @carol''))
             sample_config (str ''C0123''))) = [Call_updatePRStatus 7 (str ''in-review'')] \<and>
   filter is_status_write
     (snd (handleComment (sample_env (str ''in-review'')) (sample_comment (str ''bob'') None (str ''LGTM @carol''))
             sample_config (str ''C0123''))) = []"
proof -
  have t: "fst (getSlackThreadTs (sample_env st) 7) = Some (str ''123.45'')" for st
    by (rule sample_thread)
  have pn: "prNumber (sample_comment (str ''bob'') None (str ''LGTM @carol'')) = 7"
    and au: "commentData.author (sample_comment (str ''bob'') None (str ''LGTM @carol'')) \<noteq> str ''github-actions[bot]''"
    and rs: "reviewState (sample_comment (str ''bob'') None (str ''LGTM @carol'')) = None"
    by (simp_all add: sample_comment_def)
  have g: "getPRStatus (sample_env st) 7 = Inr st" for st by (simp add: sample_env_def)
  note A = nextStatus_transitions[of "Some (str ''changes_requested'')" "str ''approved''"]
  note B = nextStatus_transitions[of "Some (str ''approved'')" "str ''changes-requested''"]
  note C = nextStatus_transitions[of None "str ''review-pending''"
      "sample_comment (str ''bob'') None (str ''LGTM @carol'')" "sample_env (str ''review-pending'')" "str ''123.45''"
      sample_config "str ''C0123''"]
  note D = nextStatus_transitions[of "Some (str ''commented'')" "str ''in-review''"
      "sample_comment (str ''bob'') None (str ''LGTM @carol'')" "sample_env (str ''in-review'')" "str ''123.45''"
      sample_config "str ''C0123''"]
  note E = nextStatus_transitions[of None "str ''approved''"]
  from A have 1: "nextStatus (Some (str ''changes_requested'')) (str ''approved'') = str ''changes-requested''"
    by blast
  from B have 2: "nextStatus (Some (str ''approved'')) (str ''changes-requested'') = str ''approved''" by blast
  from C have 3: "nextStatus None (str ''review-pending'') = str ''in-review''" by simp
  from D have 4: "nextStatus (Some (str ''commented'')) (str ''in-review'') = str ''in-review''" by simp
  from E have 5: "nextStatus None (str ''approved'') = str ''approved''" by simp
  have ir: "nextStatus None (str ''in-review'') = str ''in-review''"
    using nextStatus_transitions[of None "str ''in-review''"] by simp
  have 6: "filter is_status_write
     (snd (handleComment (sample_env (str ''review-pending'')) (sample_comment (str ''bob'') None (str ''LGTM @carol''))
             sample_config (str ''C0123''))) = [Call_updatePRStatus 7 (str ''in-review'')]"
    using pn rs 3 t[of "str ''review-pending''"] g[of "str ''review-pending''"] au C
    by simp
  have 7: "filter is_status_write
     (snd (handleComment (sample_env (str ''in-review'')) (sample_comment (str ''bob'') None (str ''LGTM @carol''))
             sample_config (str ''C0123''))) = []"
    using pn rs ir t[of "str ''in-review''"] g[of "str ''in-review''"] au D
    by simp
  from 1 2 3 4 5 6 7 show ?thesis by blast
qed

text \<open>
  Claim C9. A comment event whose author is exactly \<open>github-actions[bot]\<close> ends the
  handler at once: it returns normally and has made no request at all, so the thread
  pointer and the status are not read, nothing is written, the head message is not
  updated and no reply is posted. For any other author the first request is the fetch of
  the pull request that reads the thread pointer.
\<close>

theorem handleComment_bot_ignored:
  "(commentData.author cd = str ''github-actions[bot]'' \<longrightarrow>
      handleComment e cd cfg ch = (Inr (), [])) \<and>
   (commentData.author cd \<noteq> str ''github-actions[bot]'' \<longrightarrow>
      take 1 (snd (handleComment e cd cfg ch)) = [GitHub_pulls_get (prNumber cd)])"
proof -
  have "take 1 (snd (handleComment e cd cfg ch)) = [GitHub_pulls_get (prNumber cd)]"
    if nb: "commentData.author cd \<noteq> str ''github-actions[bot]''"
  proof -
    obtain x t where g: "getSlackThreadTs e (prNumber cd) = (x, t)"
      by (cases "getSlackThreadTs e (prNumber cd)")
    with getSlackThreadTs_calls[of e "prNumber cd"] have t: "t = [GitHub_pulls_get (prNumber cd)]"
      by simp
    show ?thesis
      using nb g t
      by (simp add: handleComment_def split_beta Let_def split: option.splits sum.splits)
  qed
  then show ?thesis by (simp add: handleComment_def)
qed

theorem handleComment_bot_ignored_witness:
  "commentData.author (sample_comment (str ''github-actions[bot]'') None (str ''ping @carol''))
     = str ''github-actions[bot]'' \<and>
   handleComment (sample_env (str ''review-pending''))
      (sample_comment (str ''github-actions[bot]'') None (str ''ping @carol'')) sample_config (str ''C0123'')
     = (Inr (), []) \<and>
   commentData.author (sample_comment (str ''github-actions'') None (str ''ping @carol''))
     \<noteq> str ''github-actions[bot]'' \<and>
   take 1 (snd (handleComment (sample_env (str ''review-pending''))
      (sample_comment (str ''github-actions'') None (str ''ping @carol'')) sample_config (str ''C0123'')))
     = [GitHub_pulls_get 7]"
proof -
  have a: "commentData.author (sample_comment (str ''github-actions[bot]'') None (str ''ping @carol''))
     = str ''github-actions[bot]''" by (simp add: sample_comment_def)
  have b: "commentData.author (sample_comment (str ''github-actions'') None (str ''ping @carol''))
     \<noteq> str ''github-actions[bot]''" by (simp add: sample_comment_def)
  have n: "prNumber (sample_comment (str ''github-actions'') None (str ''ping @carol'')) = 7"
    by (simp add: sample_comment_def)
  from handleComment_bot_ignored[of "sample_comment (str ''github-actions[bot]'') None (str ''ping @carol'')"
      "sample_env (str ''review-pending'')" sample_config "str ''C0123''"] a
  have c: "handleComment (sample_env (str ''review-pending''))
      (sample_comment (str ''github-actions[bot]'') None (str ''ping @carol'')) sample_config (str ''C0123'')
     = (Inr (), [])" by blast
  from handleComment_bot_ignored[of "sample_comment (str ''github-actions'') None (str ''ping @carol'')"
      "sample_env (str ''review-pending'')" sample_config "str ''C0123''"] b
  have "take 1 (snd (handleComment (sample_env (str ''review-pending''))
      (sample_comment (str ''github-actions'') None (str ''ping @carol'')) sample_config (str ''C0123'')))
     = [GitHub_pulls_get (prNumber (sample_comment (str ''github-actions'') None (str ''ping @carol'')))]"
    by blast
  with n have d: "take 1 (snd (handleComment (sample_env (str ''review-pending''))
      (sample_comment (str ''github-actions'') None (str ''ping @carol'')) sample_config (str ''C0123'')))
     = [GitHub_pulls_get 7]" by simp
  from a b c d show ?thesis by blast
qed

text \<open>
  The handles a thread reply is for: for a review that approves or requests changes, the
  author of the pull request first, then the mentions of the comment body; for any other
  event the mentions alone, so the author only when mentioned. Duplicates are dropped
  before the handles are resolved. Every reply that the handler posts goes to the thread
  of the pointer and carries the Slack ids of exactly these handles; the handler posts
  at most one reply, and none when there is no handle.
\<close>

lemma thread_reply_content:
  "(reviewState cd \<noteq> Some (str ''approved'') \<and> reviewState cd \<noteq> Some (str ''changes_requested'') \<longrightarrow>
      fst (targetUsers e cd) = Inr (extractMentions (commentData.body cd))) \<and>
   (reviewState cd = Some (str ''approved'') \<or> reviewState cd = Some (str ''changes_requested'') \<longrightarrow>
      (\<forall>pr. pulls_get e (prNumber cd) = Inr pr \<longrightarrow>
         fst (targetUsers e cd) = Inr (user_login pr # extractMentions (commentData.body cd)))) \<and>
   (\<forall>c\<in>set (snd (handleComment e cd cfg ch)). is_post c \<longrightarrow>
      (\<exists>thread_ts targets.
         fst (getSlackThreadTs e (prNumber cd)) = Some thread_ts \<and>
         fst (targetUsers e cd) = Inr targets \<and> targets \<noteq> [] \<and>
         c = Slack_chat_postMessage ch (Some thread_ts)
               (CommentMessage cd (fst (mapGitHubUsersToSlack e (new_Set targets) cfg))
                  (fst (mapGitHubUserToSlack e (commentData.author cd) cfg))))) \<and>
   (fst (targetUsers e cd) = Inr [] \<longrightarrow> filter is_post (snd (handleComment e cd cfg ch)) = []) \<and>
   length (filter is_post (snd (handleComment e cd cfg ch))) \<le> 1 \<and>
   set (new_Set targets) = set targets \<and> distinct (new_Set targets)"
proof -
  have plain: "reviewState cd \<noteq> Some (str ''approved'') \<and> reviewState cd \<noteq> Some (str ''changes_requested'') \<longrightarrow>
      fst (targetUsers e cd) = Inr (extractMentions (commentData.body cd))"
    by (simp add: targetUsers_def)
  have verdict: "reviewState cd = Some (str ''approved'') \<or> reviewState cd = Some (str ''changes_requested'') \<longrightarrow>
      (\<forall>pr. pulls_get e (prNumber cd) = Inr pr \<longrightarrow>
         fst (targetUsers e cd) = Inr (user_login pr # extractMentions (commentData.body cd)))"
    by (auto simp: targetUsers_def)
  let ?P = "filter is_post (snd (handleComment e cd cfg ch))"
  have shape: "?P = [] \<or>
      (\<exists>thread_ts targets.
         fst (getSlackThreadTs e (prNumber cd)) = Some thread_ts \<and>
         fst (targetUsers e cd) = Inr targets \<and> targets \<noteq> [] \<and>
         ?P = [Slack_chat_postMessage ch (Some thread_ts)
               (CommentMessage cd (fst (mapGitHubUsersToSlack e (new_Set targets) cfg))
                  (fst (mapGitHubUserToSlack e (commentData.author cd) cfg)))])"
    unfolding handleComment_posts notifyThread_posts
    by (auto split: option.splits sum.splits)
  have posts: "\<exists>thread_ts targets.
         fst (getSlackThreadTs e (prNumber cd)) = Some thread_ts \<and>
         fst (targetUsers e cd) = Inr targets \<and> targets \<noteq> [] \<and>
         c = Slack_chat_postMessage ch (Some thread_ts)
               (CommentMessage cd (fst (mapGitHubUsersToSlack e (new_Set targets) cfg))
                  (fst (mapGitHubUserToSlack e (commentData.author cd) cfg)))"
    if "c \<in> set (snd (handleComment e cd cfg ch))" and "is_post c" for c
  proof -
    from that have cP: "c \<in> set ?P" by simp
    from shape show ?thesis
    proof (elim disjE exE conjE)
      assume p: "?P = []"
      from cP have "c \<in> set []" by (simp only: p)
      then show ?thesis by simp
    next
      fix thread_ts targets
      assume g: "fst (getSlackThreadTs e (prNumber cd)) = Some thread_ts"
        and t: "fst (targetUsers e cd) = Inr targets" and ne: "targets \<noteq> []"
        and p: "?P = [Slack_chat_postMessage ch (Some thread_ts)
               (CommentMessage cd (fst (mapGitHubUsersToSlack e (new_Set targets) cfg))
                  (fst (mapGitHubUserToSlack e (commentData.author cd) cfg)))]"
      from cP have "c \<in> set [Slack_chat_postMessage ch (Some thread_ts)
               (CommentMessage cd (fst (mapGitHubUsersToSlack e (new_Set targets) cfg))
                  (fst (mapGitHubUserToSlack e (commentData.author cd) cfg)))]"
        by (simp only: p)
      then have "c = Slack_chat_postMessage ch (Some thread_ts)
               (CommentMessage cd (fst (mapGitHubUsersToSlack e (new_Set targets) cfg))
                  (fst (mapGitHubUserToSlack e (commentData.author cd) cfg)))" by simp
      with g t ne show ?thesis by blast
    qed
  qed
  have none: "fst (targetUsers e cd) = Inr [] \<longrightarrow> ?P = []"
    using shape by auto
  have one: "length ?P \<le> 1" using shape by auto
  from plain verdict posts none one new_Set_set[of targets] new_Set_distinct[of targets]
  show ?thesis by blast
qed

text \<open>
  When the reply is sent and when it is not. If the event leaves the status as it is and
  one of the handles resolves, the reply is posted. If the event changes the status, the
  handler ends with an error before it comes to the reply, and nothing is posted; so a
  review that approves is answered only on a pull request that is already approved, and
  one that requests changes only where changes were already requested.
\<close>

lemma handleComment_reply_sent:
  assumes "commentData.author cd \<noteq> str ''github-actions[bot]''"
    and "fst (getSlackThreadTs e (prNumber cd)) = Some thread_ts"
    and "getPRStatus e (prNumber cd) = Inr cur"
    and "nextStatus (reviewState cd) cur = cur"
    and "fst (targetUsers e cd) = Inr targets"
    and "fst (mapGitHubUsersToSlack e (new_Set targets) cfg) \<noteq> []"
  shows "filter is_post (snd (handleComment e cd cfg ch)) =
     [Slack_chat_postMessage ch (Some thread_ts)
        (CommentMessage cd (fst (mapGitHubUsersToSlack e (new_Set targets) cfg))
           (fst (mapGitHubUserToSlack e (commentData.author cd) cfg)))]"
proof -
  from assms(6) have "targets \<noteq> []" by (auto simp: new_Set_def)
  with assms show ?thesis
    unfolding handleComment_posts notifyThread_posts by simp
qed

lemma handleComment_status_change_stops:
  assumes "commentData.author cd \<noteq> str ''github-actions[bot]''"
    and "fst (getSlackThreadTs e (prNumber cd)) = Some thread_ts"
    and "getPRStatus e (prNumber cd) = Inr cur"
    and "nextStatus (reviewState cd) cur \<noteq> cur"
  shows "(\<exists>err. fst (handleComment e cd cfg ch) = Inl err) \<and>
     filter is_post (snd (handleComment e cd cfg ch)) = []"
proof -
  obtain x t where g: "getSlackThreadTs e (prNumber cd) = (x, t)"
    by (cases "getSlackThreadTs e (prNumber cd)")
  with assms(2) have g': "getSlackThreadTs e (prNumber cd) = (Some thread_ts, t)" by simp
  obtain r u where uh: "updateHeadMessage e cfg ch (prNumber cd) thread_ts
      (nextStatus (reviewState cd) cur) = (r, u)"
    by (cases "updateHeadMessage e cfg ch (prNumber cd) thread_ts (nextStatus (reviewState cd) cur)")
  have "\<exists>err. fst (updateHeadMessage e cfg ch (prNumber cd) thread_ts
      (nextStatus (reviewState cd) cur)) = Inl err"
    by (simp add: updateHeadMessage_stops split: sum.splits)
  with uh obtain err where r: "r = Inl err" by auto
  have "fst (handleComment e cd cfg ch) = Inl err"
    using assms(1,3,4) g' uh r by (simp add: handleComment_def Let_def)
  moreover have "filter is_post (snd (handleComment e cd cfg ch)) = []"
    using assms by (simp add: handleComment_posts)
  ultimately show ?thesis by blast
qed

lemma verdict_reply_only_without_change:
  assumes "filter is_post (snd (handleComment e cd cfg ch)) \<noteq> []"
  shows "(reviewState cd = Some (str ''approved'') \<longrightarrow>
            getPRStatus e (prNumber cd) = Inr (str ''approved'')) \<and>
         (reviewState cd = Some (str ''changes_requested'') \<longrightarrow>
            getPRStatus e (prNumber cd) = Inr (str ''changes-requested''))"
proof -
  from assms obtain cur where c: "getPRStatus e (prNumber cd) = Inr cur"
    and n: "nextStatus (reviewState cd) cur = cur"
    unfolding handleComment_posts
    by (auto split: if_splits option.splits sum.splits)
  from n c show ?thesis
    by (auto simp: nextStatus_def APPROVED_def CHANGES_REQUESTED_def split: if_splits)
qed

lemma sample_author_ids:
  "mapGitHubUsersToSlack (sample_env st) [str ''alice''] mapped_author_config
     = ([str ''U1''], [Slack_users_lookupByEmail (str ''alice@co.com'')])"
  by (simp add: mapGitHubUserToSlack_def table_step_def emailToSlackId_def sample_env_def
        mapped_author_config_def sample_directory_def)

lemma sample_reviewer_id:
  "mapGitHubUserToSlack (sample_env st) (str ''bob'') mapped_author_config
     = (Some (str ''U2''), [Slack_users_lookupByEmail (str ''bob@co.com'')])"
  by (simp add: mapGitHubUserToSlack_def table_step_def emailToSlackId_def sample_env_def
        mapped_author_config_def sample_directory_def)

lemma sample_approval_targets:
  "targetUsers (sample_env st) (sample_comment (str ''bob'') (Some (str ''approved'')) (str ''LGTM''))
     = (Inr [str ''alice''], [GitHub_pulls_get 7])"
  by (simp add: targetUsers_def sample_comment_def sample_env_def sample_pr_def
        extractMentions_def new_Set_def)

text \<open>
  Claim C7 at an input where the code leaves the claim. \<open>bob\<close> approves pull request
  7 of \<open>alice\<close>, whose stored status is \<open>review-pending\<close>; the thread pointer is
  there and the mapping table knows \<open>alice\<close>. The approval changes the status, and the
  branch that follows hands \<open>parsePRData\<close> a payload without repository: the handler
  ends with that \<^verbatim>\<open>TypeError\<close> after the status is written and the pull request is
  fetched, nothing is posted, and the author gets no reply, although the author is the
  one handle the reply would be for and resolves to a Slack id. The same approval on a
  pull request whose status is \<open>approved\<close> already is answered in the thread, to the
  author.
\<close>

theorem handleComment_verdict_reply_lost:
  "handleComment (sample_env (str ''review-pending''))
      (sample_comment (str ''bob'') (Some (str ''approved'')) (str ''LGTM''))
      mapped_author_config (str ''C0123'')
     = (Inl (TypeError (str ''Cannot read properties of undefined (reading 'name')'')),
        [GitHub_pulls_get 7, Call_getPRStatus 7, Call_updatePRStatus 7 (str ''approved''),
         GitHub_pulls_get 7]) \<and>
   filter is_post
     (snd (handleComment (sample_env (str ''review-pending''))
             (sample_comment (str ''bob'') (Some (str ''approved'')) (str ''LGTM''))
             mapped_author_config (str ''C0123''))) = [] \<and>
   fst (targetUsers (sample_env (str ''review-pending''))
          (sample_comment (str ''bob'') (Some (str ''approved'')) (str ''LGTM'')))
     = Inr [str ''alice''] \<and>
   fst (mapGitHubUsersToSlack (sample_env (str ''review-pending'')) [str ''alice'']
          mapped_author_config) = [str ''U1''] \<and>
   handleComment (sample_env (str ''approved''))
      (sample_comment (str ''bob'') (Some (str ''approved'')) (str ''LGTM''))
      mapped_author_config (str ''C0123'')
     = (Inr (),
        [GitHub_pulls_get 7, Call_getPRStatus 7, GitHub_pulls_get 7,
         Slack_users_lookupByEmail (str ''alice@co.com''),
         Slack_users_lookupByEmail (str ''bob@co.com''),
         Slack_chat_postMessage (str ''C0123'') (Some (str ''123.45''))
           (CommentMessage (sample_comment (str ''bob'') (Some (str ''approved'')) (str ''LGTM''))
              [str ''U1''] (Some (str ''U2'')))])"
proof -
  let ?cd = "sample_comment (str ''bob'') (Some (str ''approved'')) (str ''LGTM'')"
  have cd: "commentData.author ?cd = str ''bob''" "prNumber ?cd = 7"
    "reviewState ?cd = Some (str ''approved'')"
    by (simp_all add: sample_comment_def)
  have th: "getSlackThreadTs (sample_env st) 7 = (Some (str ''123.45''), [GitHub_pulls_get 7])"
    for st
    using sample_thread[of st] getSlackThreadTs_calls[of "sample_env st" 7]
    by (simp add: prod_eq_iff)
  have gs: "getPRStatus (sample_env st) 7 = Inr st" for st by (simp add: sample_env_def)
  have up: "updatePRStatus (sample_env st) 7 new = Inr ()" for st new
    by (simp add: sample_env_def)
  have pg: "pulls_get (sample_env st) 7 = Inr (sample_pr st)" for st
    by (simp add: sample_env_def)
  have pm: "chat_postMessage (sample_env st) c t m
      = Inr \<lparr>chat_response.ok = True, ts = str ''123.45'', error = []\<rparr>" for st c t m
    by (simp add: sample_env_def)
  have uh: "updateHeadMessage (sample_env st) cfg c 7 t new
      = (Inl (TypeError (str ''Cannot read properties of undefined (reading 'name')'')),
         [Call_updatePRStatus 7 new, GitHub_pulls_get 7])" for st cfg c t new
    by (simp add: updateHeadMessage_stops up pg)
  have nt: "notifyThread (sample_env st) mapped_author_config (str ''C0123'') ?cd (str ''123.45'')
      = (Inr (), [GitHub_pulls_get 7, Slack_users_lookupByEmail (str ''alice@co.com''),
           Slack_users_lookupByEmail (str ''bob@co.com''),
           Slack_chat_postMessage (str ''C0123'') (Some (str ''123.45''))
             (CommentMessage ?cd [str ''U1''] (Some (str ''U2'')))])" for st
    unfolding notifyThread_def sample_approval_targets
    using sample_author_ids[of st] sample_reviewer_id[of st] pm[of st] cd(1)
    by (simp add: new_Set_def Set_add_def sendThreadReply_def check_ok_def
          del: mapGitHubUsersToSlack.simps)
  have lost: "handleComment (sample_env (str ''review-pending'')) ?cd mapped_author_config (str ''C0123'')
     = (Inl (TypeError (str ''Cannot read properties of undefined (reading 'name')'')),
        [GitHub_pulls_get 7, Call_getPRStatus 7, Call_updatePRStatus 7 (str ''approved''),
         GitHub_pulls_get 7])"
    unfolding handleComment_def
    using cd th[of "str ''review-pending''"] gs[of "str ''review-pending''"]
      uh[of "str ''review-pending''" mapped_author_config "str ''C0123''" "str ''123.45''"
         "str ''approved''"]
    by (simp add: nextStatus_def APPROVED_def)
  have sent: "handleComment (sample_env (str ''approved'')) ?cd mapped_author_config (str ''C0123'')
     = (Inr (),
        [GitHub_pulls_get 7, Call_getPRStatus 7, GitHub_pulls_get 7,
         Slack_users_lookupByEmail (str ''alice@co.com''),
         Slack_users_lookupByEmail (str ''bob@co.com''),
         Slack_chat_postMessage (str ''C0123'') (Some (str ''123.45''))
           (CommentMessage ?cd [str ''U1''] (Some (str ''U2'')))])"
    unfolding handleComment_def
    using cd th[of "str ''approved''"] gs[of "str ''approved''"] nt[of "str ''approved''"]
    by (simp add: nextStatus_def APPROVED_def)
  have np: "filter is_post
     (snd (handleComment (sample_env (str ''review-pending'')) ?cd mapped_author_config
             (str ''C0123''))) = []"
    unfolding lost by simp
  have tg: "fst (targetUsers (sample_env (str ''review-pending'')) ?cd) = Inr [str ''alice'']"
    unfolding sample_approval_targets by simp
  have ids: "fst (mapGitHubUsersToSlack (sample_env (str ''review-pending'')) [str ''alice'']
          mapped_author_config) = [str ''U1'']"
    unfolding sample_author_ids by simp
  show ?thesis
    by (intro conjI) (rule lost, rule np, rule tg, rule ids, rule sent)
qed

section \<open>Reviewers of a new pull request\<close>

lemma add_unless_author_set:
  "set (add_unless_author a acc xs) = set acc \<union> {x \<in> set xs. x \<noteq> a}"
  unfolding add_unless_author_def
  by (induction xs arbitrary: acc) (auto simp: Set_add_set)

lemma add_unless_author_distinct:
  "distinct acc \<Longrightarrow> distinct (add_unless_author a acc xs)"
  unfolding add_unless_author_def
  by (induction xs arbitrary: acc) (simp_all add: Set_add_distinct)

lemma set_map_filter: "set (List.map_filter f xs) = {y. \<exists>x\<in>set xs. f x = Some y}"
  by (induction xs) (auto split: option.splits)

lemma mapGitHubUsersToSlack_set:
  "set (fst (mapGitHubUsersToSlack e us cfg))
     = {s. \<exists>u\<in>set us. fst (mapGitHubUserToSlack e u cfg) = Some s}"
  by (simp add: mapGitHubUsersToSlack_result set_map_filter)

lemma collectReviewers_ids:
  "fst (fst (collectReviewers e cfg d)) =
     (let handles = add_unless_author (prData.author d)
                      (add_unless_author (prData.author d) [] (reviewers d))
                      (fst (getCodeOwners e (prData.number d)));
          ids = fst (mapGitHubUsersToSlack e handles cfg)
      in if default_reviewers cfg = [] then ids
         else new_Set (ids @ fst (getDefaultReviewersSlackIds e (default_reviewers cfg))))"
proof -
  have a: "add_unless_author x acc [] = acc" for x and acc :: "js_string list"
    by (simp add: add_unless_author_def)
  have m: "fst (mapGitHubUsersToSlack e [] cfg) = []" by simp
  show ?thesis
    unfolding collectReviewers_def Let_def
    by (cases "reviewers d = []"; cases "fst (getCodeOwners e (prData.number d)) = []")
       (simp_all add: split_beta a m del: mapGitHubUsersToSlack.simps)
qed

text \<open>
  What holds of the reviewer ids on every input: as a set they are the ids of the assigned
  reviewers other than the author, of the code owners other than the author, and of the
  default reviewers; when default reviewers are configured no id occurs twice.
\<close>

lemma collectReviewers_union:
  "set (fst (fst (collectReviewers e cfg d))) =
     {s. \<exists>u\<in>set (reviewers d). u \<noteq> prData.author d \<and> fst (mapGitHubUserToSlack e u cfg) = Some s} \<union>
     {s. \<exists>u\<in>set (fst (getCodeOwners e (prData.number d))).
            u \<noteq> prData.author d \<and> fst (mapGitHubUserToSlack e u cfg) = Some s} \<union>
     set (fst (getDefaultReviewersSlackIds e (default_reviewers cfg)))"
proof -
  have d0: "fst (getDefaultReviewersSlackIds e []) = []" by simp
  show ?thesis
    unfolding collectReviewers_ids Let_def
    by (cases "default_reviewers cfg = []")
       (auto simp: new_Set_set mapGitHubUsersToSlack_set add_unless_author_set d0
             simp del: getDefaultReviewersSlackIds.simps)
qed

lemma collectReviewers_distinct_with_defaults:
  "default_reviewers cfg \<noteq> [] \<Longrightarrow> distinct (fst (fst (collectReviewers e cfg d)))"
  by (simp add: collectReviewers_ids Let_def new_Set_distinct)

lemma handlePROpened_posts:
  "parsePRData ctx = Inr d \<Longrightarrow>
     Slack_chat_postMessage ch None
        (PRNotificationMessage d (fst (fst (collectReviewers e cfg d)))
           (fst (mapGitHubUserToSlack e (prData.author d) cfg)) (str ''review-pending''))
       \<in> set (snd (handlePROpened e ctx cfg ch))"
  by (simp add: handlePROpened_def sendSlackMessage_def split_beta Let_def REVIEW_PENDING_def
        split: sum.splits)

lemma sample_parsed:
  "parsePRData (sample_payload rs) =
     Inr \<lparr>prData.number = 7, title = str ''Fix'', author = str ''alice'', body = str ''Fix'', isDraft = False,
          reviewers = rs,
          repo = \<lparr>name = str ''app'', full_name = str ''co/app'', html_url = str ''https://example.org/co/app''\<rparr>\<rparr>"
  by (simp add: parsePRData_def sample_payload_def)

lemma sample_codeowners: "fst (getCodeOwners (sample_env st) 7) = [str ''bob'', str ''carol'']"
  by (simp add: getCodeOwners_def getChangedFiles_def CODEOWNERS_paths_def sample_env_def
        collect_owners_def parseCodeowners_def parse_line_def trim_def is_space_def
        matchPattern_def endsWith_def Set_add_def)

text \<open>
  The example of the specification: reviewers \<open>alice\<close> and \<open>bob\<close>, author
  \<open>alice\<close>, owners \<open>bob\<close> and \<open>carol\<close>, one default reviewer.
\<close>

lemma collectReviewers_example:
  "fst (collectReviewers (sample_env (str ''review-pending'')) sample_config
          \<lparr>prData.number = 7, title = str ''Fix'', author = str ''alice'', body = str ''Fix'', isDraft = False,
            reviewers = [str ''alice'', str ''bob''],
            repo = \<lparr>name = str ''app'', full_name = str ''co/app'',
                    html_url = str ''https://example.org/co/app''\<rparr>\<rparr>)
     = ([str ''U2'', str ''U3'', str ''U4''], str ''reviewers + codeowners + default'')"
proof -
  let ?e = "sample_env (str ''review-pending'')"
  have b: "fst (mapGitHubUserToSlack ?e (str ''bob'') sample_config) = Some (str ''U2'')"
    by (simp add: mapGitHubUserToSlack_def table_step_def emailToSlackId_def sample_env_def
          sample_config_def sample_directory_def)
  have c: "fst (mapGitHubUserToSlack ?e (str ''carol'') sample_config) = Some (str ''U3'')"
    by (simp add: mapGitHubUserToSlack_def table_step_def auto_step_def getGitHubUserEmail_def
          emailToSlackId_def sample_env_def sample_config_def sample_directory_def)
  have m: "fst (mapGitHubUsersToSlack ?e [str ''bob'', str ''carol''] sample_config) = [str ''U2'', str ''U3'']"
    unfolding mapGitHubUsersToSlack_result map_filter_simps b c by simp
  have dr: "default_reviewers sample_config = [str ''dave@co.com'']"
    by (simp add: sample_config_def)
  have dv: "fst (getDefaultReviewersSlackIds ?e [str ''dave@co.com'']) = [str ''U4'']"
    by (simp add: emailToSlackId_def sample_env_def sample_directory_def)
  show ?thesis
    using m dv
    by (simp add: collectReviewers_def prod_eq_iff sample_codeowners add_unless_author_def
          Set_add_def new_Set_def split_beta dr
          del: mapGitHubUsersToSlack.simps getDefaultReviewersSlackIds.simps)
qed

text \<open>
  Claim C2 at an input where the code leaves the claim. Without default reviewers the ids
  are not deduplicated after resolution: \<open>bob\<close> and \<open>carol\<close>, two distinct
  handles that the mapping table sends to one mailbox, give the same Slack id twice, in the
  list of reviewer ids and in the message that is posted.
\<close>

theorem collectReviewers_duplicate_ids:
  "fst (collectReviewers (sample_env (str ''review-pending'')) shared_mailbox_config
          \<lparr>prData.number = 7, title = str ''Fix'', author = str ''alice'', body = str ''Fix'', isDraft = False,
            reviewers = [str ''bob'', str ''carol''],
            repo = \<lparr>name = str ''app'', full_name = str ''co/app'',
                    html_url = str ''https://example.org/co/app''\<rparr>\<rparr>)
     = ([str ''U9'', str ''U9''], str ''reviewers + codeowners'') \<and>
   \<not> distinct [str ''U9'', str ''U9''] \<and>
   filter is_post
     (snd (handlePROpened (sample_env (str ''review-pending'')) (sample_payload [str ''bob'', str ''carol''])
             shared_mailbox_config (str ''C0123'')))
     = [Slack_chat_postMessage (str ''C0123'') None
          (PRNotificationMessage
             \<lparr>prData.number = 7, title = str ''Fix'', author = str ''alice'', body = str ''Fix'', isDraft = False,
               reviewers = [str ''bob'', str ''carol''],
               repo = \<lparr>name = str ''app'', full_name = str ''co/app'',
                       html_url = str ''https://example.org/co/app''\<rparr>\<rparr>
             [str ''U9'', str ''U9''] None (str ''review-pending''))]"
proof -
  let ?e = "sample_env (str ''review-pending'')"
  let ?d = "\<lparr>prData.number = 7, title = str ''Fix'', author = str ''alice'', body = str ''Fix'', isDraft = False,
            reviewers = [str ''bob'', str ''carol''],
            repo = \<lparr>name = str ''app'', full_name = str ''co/app'',
                    html_url = str ''https://example.org/co/app''\<rparr>\<rparr>"
  have u: "mapGitHubUserToSlack (sample_env st) u shared_mailbox_config
      = (Some (str ''U9''), [Slack_users_lookupByEmail (str ''shared@co.com'')])"
    if "u = str ''bob'' \<or> u = str ''carol''" for u st
    using that
    by (auto simp: mapGitHubUserToSlack_def table_step_def emailToSlackId_def sample_env_def
          shared_mailbox_config_def sample_directory_def)
  have a: "mapGitHubUserToSlack ?e (str ''alice'') shared_mailbox_config
      = (None, [GitHub_users_getByUsername (str ''alice'')])"
    by (simp add: mapGitHubUserToSlack_def table_step_def auto_step_def getGitHubUserEmail_def
          sample_env_def shared_mailbox_config_def)
  have m: "mapGitHubUsersToSlack ?e [str ''bob'', str ''carol''] shared_mailbox_config
     = ([str ''U9'', str ''U9''],
        [Slack_users_lookupByEmail (str ''shared@co.com''), Slack_users_lookupByEmail (str ''shared@co.com'')])"
    by (simp add: u)
  have dr: "default_reviewers shared_mailbox_config = []"
    by (simp add: shared_mailbox_config_def)
  have c: "collectReviewers ?e shared_mailbox_config ?d
     = (([str ''U9'', str ''U9''], str ''reviewers + codeowners''),
        snd (getCodeOwners ?e 7) @
        [Slack_users_lookupByEmail (str ''shared@co.com''), Slack_users_lookupByEmail (str ''shared@co.com'')])"
    using m
    by (simp add: collectReviewers_def prod_eq_iff sample_codeowners add_unless_author_def
          Set_add_def split_beta dr del: mapGitHubUsersToSlack.simps)
  have pm: "chat_postMessage (sample_env st) ch th msg
      = Inr \<lparr>chat_response.ok = True, ts = str ''123.45'', error = []\<rparr>"
    for st ch th msg by (simp add: sample_env_def)
  have pu: "pulls_update (sample_env st) n b = Inr ()" for st n b by (simp add: sample_env_def)
  have lk: "filter is_post (snd (getCodeOwners ?e 7)) = []"
    by (simp add: getCodeOwners_def getChangedFiles_def CODEOWNERS_paths_def sample_env_def
          split_beta)
  have p: "filter is_post (snd (handlePROpened ?e (sample_payload [str ''bob'', str ''carol''])
             shared_mailbox_config (str ''C0123'')))
     = [Slack_chat_postMessage (str ''C0123'') None
          (PRNotificationMessage ?d [str ''U9'', str ''U9''] None (str ''review-pending''))]"
    using a c lk
    by (simp add: handlePROpened_def sample_parsed sendSlackMessage_def check_ok_def
          REVIEW_PENDING_def Let_def pm pu)
  from c p show ?thesis by simp
qed

end
